theory Spec2Isabelle
  imports Main
begin

section \<open>Data model of \<^verbatim>\<open>rl/core.py\<close>\<close>

text \<open>
  The module defines the abstract classes \<^verbatim>\<open>Agent\<close>, \<^verbatim>\<open>Env\<close>, \<^verbatim>\<open>Space\<close> and the two
  driver loops \<^verbatim>\<open>Agent.fit\<close> and \<^verbatim>\<open>Agent.test\<close>. The loops are effectful: they call the
  environment, the concrete agent, the callback list, numpy's random generator and
  \<^verbatim>\<open>warnings.warn\<close>. The embedding makes every such call an event of a trace, in
  program order, and threads the state of the environment, of the agent and of the
  random source explicitly.

  Type parameters: \<open>'o\<close> observations, \<open>'a\<close> actions, \<open>'r\<close> rewards (any type with
  \<open>0\<close> and \<open>+\<close>; no law of addition is assumed, so that the sums below are the
  left-to-right sums the code computes, also for floating point), \<open>'m\<close> the metrics
  returned by \<^verbatim>\<open>backward\<close>, \<open>'e\<close> the state of the environment, \<open>'g\<close> the state of the
  concrete agent, \<open>'s\<close> the state of the random sources.
\<close>

text \<open>The exceptions raised by the code of the module itself.\<close>

datatype error = RuntimeError | ValueError | AssertionError

text \<open>The callback objects the loops create, and those supplied by the caller.\<close>

datatype callback =
    TrainEpisodeLogger
  | TrainIntervalLogger int
  | Visualizer
  | TestLogger
  | UserCallback nat

text \<open>
  Python lists are mutable objects. \<^verbatim>\<open>fit\<close> and \<^verbatim>\<open>test\<close> each own one list object
  created when the \<^verbatim>\<open>def\<close> is executed: the default value of their \<^verbatim>\<open>callbacks\<close>
  parameter. The store maps a reference to the current contents of the list.
\<close>

datatype list_ref = Fit_default | Test_default | Caller_list nat

text \<open>Values stored in the dictionaries handed to the callbacks.\<close>

datatype ('o, 'a, 'r, 'm) pyval =
    PyFloat 'r
  | PyInt int
  | PyIntOrNone "int option"
  | PyAction 'a
  | PyObservation "'o option"
  | PyMetrics 'm
  | PyEnv

text \<open>A dictionary literal, as the list of its items in source order.\<close>

type_synonym ('o, 'a, 'r, 'm) pydict = "(string \<times> ('o, 'a, 'r, 'm) pyval) list"

text \<open>
  One event per call that leaves the loop. Calls that return a value record it:
  \<open>Env_step a ob r d\<close> is \<^verbatim>\<open>env.step(a)\<close> returning \<^verbatim>\<open>(ob, r, d, _)\<close>,
  \<open>Forward ob a\<close> is \<^verbatim>\<open>self.forward(ob)\<close> returning \<open>a\<close>, \<open>Backward r t m\<close> is
  \<^verbatim>\<open>self.backward(r, terminal=t)\<close> returning \<open>m\<close>, \<open>Randint v n\<close> is
  \<^verbatim>\<open>np.random.randint(v)\<close> returning \<open>n\<close>, \<open>Warn n\<close> is the warning of line 56.
  An observation is an \<open>option\<close>: \<open>None\<close> is Python's \<^verbatim>\<open>None\<close>.
\<close>

datatype ('o, 'a, 'r, 'm) event =
    New_CallbackList "callback list"
  | Set_model
  | Set_params "('o, 'a, 'r, 'm) pydict"
  | On_train_begin
  | On_train_end
  | On_episode_begin int
  | On_episode_end int "('o, 'a, 'r, 'm) pydict"
  | On_step_begin int
  | On_step_end int "('o, 'a, 'r, 'm) pydict option"
  | Reset_states
  | Forward "'o option" 'a
  | Backward 'r bool 'm
  | Env_reset "'o option"
  | Env_sample 'a
  | Env_step 'a "'o option" 'r bool
  | Randint int int
  | Warn int

text \<open>The attributes of \<^verbatim>\<open>self\<close> the loops read and write, and the rest of the agent.\<close>

record 'g agent_obj =
  compiled :: bool
  training :: bool
  inner :: 'g

text \<open>Everything outside the call frame that a call of \<^verbatim>\<open>fit\<close> or \<^verbatim>\<open>test\<close> can change.\<close>

record ('e, 'g, 's) world =
  env :: 'e
  agent :: "'g agent_obj"
  rnd :: 's
  store :: "list_ref \<Rightarrow> callback list"

text \<open>
  The methods of the concrete subtypes (\<^verbatim>\<open>Env.reset\<close>, \<^verbatim>\<open>Env.step\<close>,
  \<^verbatim>\<open>Space.sample\<close>, \<^verbatim>\<open>Agent.reset_states\<close>, \<^verbatim>\<open>Agent.forward\<close>, \<^verbatim>\<open>Agent.backward\<close>) and
  the draw of \<^verbatim>\<open>np.random.randint\<close>, as state transformers. They are parameters of the
  model: the loops are verified for every implementation that returns. The fourth
  component of the result of \<^verbatim>\<open>env.step\<close> (\<^verbatim>\<open>info\<close>) is dropped by both loops and is
  not modelled.
\<close>

record ('e, 'g, 's, 'o, 'a, 'r, 'm) impl =
  env_reset :: "'e \<Rightarrow> 'o option \<times> 'e"
  env_step :: "'a \<Rightarrow> 'e \<Rightarrow> ('o option \<times> 'r \<times> bool) \<times> 'e"
  space_sample :: "'s \<Rightarrow> 'a \<times> 's"
  np_randint :: "int \<Rightarrow> 's \<Rightarrow> int \<times> 's"
  reset_states :: "'g agent_obj \<Rightarrow> 'g agent_obj"
  forward :: "'o option \<Rightarrow> 'g agent_obj \<Rightarrow> 'a \<times> 'g agent_obj"
  backward :: "'r \<Rightarrow> bool \<Rightarrow> 'g agent_obj \<Rightarrow> 'm \<times> 'g agent_obj"

text \<open>The local variables of \<^verbatim>\<open>fit\<close> that live across iterations of its \<^verbatim>\<open>while\<close> loop.\<close>

record ('e, 'g, 's, 'o, 'r) frame =
  world :: "('e, 'g, 's) world"
  episode :: int
  step :: int
  observation :: "'o option"
  episode_reward :: "'r option"
  episode_step :: "int option"

text \<open>
  A call ends by raising (\<open>Inl\<close>, with the world at that point) or by returning
  (\<open>Inr\<close>). A loop that has used up its fuel has no outcome (\<open>None\<close>); the events
  it has emitted so far are kept.
\<close>

type_synonym ('e, 'g, 's, 'x) outcome = "(error \<times> ('e, 'g, 's) world) + 'x"

section \<open>The loops\<close>

subsection \<open>Action repetition (lines 70-76 and 140-146)\<close>

text \<open>
  \<^verbatim>\<open>for _ in xrange(action_repetition): observation, r, done, _ = env.step(action);
  reward += r; if done: break\<close>. The first argument counts the iterations left. In
  \<^verbatim>\<open>test\<close> the flag is set by \<^verbatim>\<open>if d: done = True; break\<close> with \<^verbatim>\<open>done\<close> false on
  entry, which computes the same.
\<close>

fun repeat_action ::
  "('e, 'g, 's, 'o, 'a, 'r::plus, 'm) impl \<Rightarrow> nat \<Rightarrow> 'a \<Rightarrow> 'o option \<times> 'r \<times> bool \<times> 'e \<Rightarrow>
     ('o, 'a, 'r, 'm) event list \<times> ('o option \<times> 'r \<times> bool \<times> 'e)" where
  "repeat_action I 0 action st = ([], st)"
| "repeat_action I (Suc n) action (ob, reward, done, e) =
     (case env_step I action e of ((ob', r, d), e') \<Rightarrow>
        if d then ([Env_step action ob' r d], (ob', reward + r, d, e'))
        else (case repeat_action I n action (ob', reward + r, d, e') of
                (evs, st') \<Rightarrow> (Env_step action ob' r d # evs, st')))"

subsection \<open>Random starts (lines 52-58)\<close>

text \<open>
  \<^verbatim>\<open>np.random.randint(v)\<close> draws from \<open>[0, v)\<close> and raises \<^verbatim>\<open>ValueError\<close> when
  \<open>v \<le> 0\<close>; the draw itself is the parameter \<open>np_randint\<close>. The code guards the
  call with \<^verbatim>\<open>nb_max_random_start_steps == 0\<close>.
\<close>

definition nb_random_start_steps ::
  "('e, 'g, 's, 'o, 'a, 'r, 'm) impl \<Rightarrow> int \<Rightarrow> 's \<Rightarrow>
     ('o, 'a, 'r, 'm) event list \<times> (error + int \<times> 's)" where
  "nb_random_start_steps I nb_max_random_start_steps s =
     (if nb_max_random_start_steps = 0 then ([], Inr (0, s))
      else if nb_max_random_start_steps < 0 then ([], Inl ValueError)
      else (case np_randint I nb_max_random_start_steps s of
              (n, s') \<Rightarrow> ([Randint nb_max_random_start_steps n], Inr (n, s'))))"

text \<open>
  \<^verbatim>\<open>for _ in xrange(nb_random_start_steps)\<close>: sample an action, step, and on
  \<^verbatim>\<open>done\<close> warn, reset and leave the loop. The second argument is the number the
  warning prints.
\<close>

fun random_starts ::
  "('e, 'g, 's, 'o, 'a, 'r, 'm) impl \<Rightarrow> nat \<Rightarrow> int \<Rightarrow> 'o option \<times> 'e \<times> 's \<Rightarrow>
     ('o, 'a, 'r, 'm) event list \<times> ('o option \<times> 'e \<times> 's)" where
  "random_starts I 0 drawn st = ([], st)"
| "random_starts I (Suc n) drawn (ob, e, s) =
     (case space_sample I s of (a, s') \<Rightarrow>
      case env_step I a e of ((ob', r, done), e') \<Rightarrow>
        if done then
          (case env_reset I e' of (ob'', e'') \<Rightarrow>
             ([Env_sample a, Env_step a ob' r done, Warn drawn, Env_reset ob''], (ob'', e'', s')))
        else (case random_starts I n drawn (ob', e', s') of
                (evs, st') \<Rightarrow> (Env_sample a # Env_step a ob' r done # evs, st')))"

subsection \<open>Start of an episode in \<^verbatim>\<open>fit\<close> (lines 41-58)\<close>

definition start_episode ::
  "('e, 'g, 's, 'o, 'a, 'r::zero, 'm) impl \<Rightarrow> int \<Rightarrow> ('e, 'g, 's, 'o, 'r) frame \<Rightarrow>
     ('o, 'a, 'r, 'm) event list \<times> ('e, 'g, 's, ('e, 'g, 's, 'o, 'r) frame) outcome" where
  "start_episode I nb_max_random_start_steps fr =
     (let w = world fr;
          ag = reset_states I (agent w);
          evs0 = [On_episode_begin (episode fr), Reset_states]
      in case env_reset I (env w) of (ob, e) \<Rightarrow>
         let w1 = w\<lparr>env := e, agent := ag\<rparr> in
         if ob = None then (evs0 @ [Env_reset ob], Inl (AssertionError, w1))
         else
           (case nb_random_start_steps I nb_max_random_start_steps (rnd w1) of
              (evs1, Inl err) \<Rightarrow> (evs0 @ Env_reset ob # evs1, Inl (err, w1))
            | (evs1, Inr (n, s)) \<Rightarrow>
                (case random_starts I (nat n) n (ob, e, s) of
                   (evs2, (ob', e', s')) \<Rightarrow>
                     (evs0 @ Env_reset ob # evs1 @ evs2,
                      Inr (fr\<lparr>world := w1\<lparr>env := e', rnd := s'\<rparr>,
                              observation := ob',
                              episode_reward := Some 0,
                              episode_step := Some 0\<rparr>)))))"

subsection \<open>One recorded step of \<^verbatim>\<open>fit\<close> (lines 61-103)\<close>

definition fit_step ::
  "('e, 'g, 's, 'o, 'a, 'r::{plus,zero}, 'm) impl \<Rightarrow> int \<Rightarrow> ('e, 'g, 's, 'o, 'r) frame \<Rightarrow>
     ('o, 'a, 'r, 'm) event list \<times> ('e, 'g, 's, ('e, 'g, 's, 'o, 'r) frame) outcome" where
  "fit_step I action_repetition fr =
     (case (episode_reward fr, episode_step fr, observation fr) of
        (Some er, Some es, Some ob0) \<Rightarrow>
          (let w = world fr in
           case forward I (Some ob0) (agent w) of (action, ag1) \<Rightarrow>
           case repeat_action I (nat action_repetition) action (Some ob0, 0, False, env w) of
             (evs, (ob, reward, done, e1)) \<Rightarrow>
           case backward I reward done ag1 of (metrics, ag2) \<Rightarrow>
           let er' = er + reward;
               step_logs = [(''action'', PyAction action),
                            (''observation'', PyObservation ob),
                            (''reward'', PyFloat reward),
                            (''metrics'', PyMetrics metrics),
                            (''episode'', PyInt (episode fr))];
               evs1 = On_step_begin es # Forward (Some ob0) action # evs
                        @ [Backward reward done metrics, On_step_end es (Some step_logs)];
               es' = es + 1;
               step' = step fr + 1;
               w' = w\<lparr>env := e1, agent := ag2\<rparr>
           in if done then
                (let episode_logs = [(''episode_reward'', PyFloat er'),
                                     (''nb_episode_steps'', PyInt es'),
                                     (''nb_steps'', PyInt step')]
                 in (evs1 @ [On_episode_end (episode fr) episode_logs],
                     Inr (fr\<lparr>world := w', episode := episode fr + 1, step := step',
                             observation := None, episode_reward := None,
                             episode_step := None\<rparr>)))
              else (evs1,
                    Inr (fr\<lparr>world := w', step := step', observation := ob,
                            episode_reward := Some er', episode_step := Some es'\<rparr>)))
      | _ \<Rightarrow> ([], Inl (AssertionError, world fr)))"

subsection \<open>The body and the \<^verbatim>\<open>while\<close> loop of \<^verbatim>\<open>fit\<close> (lines 39-103)\<close>

definition fit_body ::
  "('e, 'g, 's, 'o, 'a, 'r::{plus,zero}, 'm) impl \<Rightarrow> int \<Rightarrow> int \<Rightarrow> ('e, 'g, 's, 'o, 'r) frame \<Rightarrow>
     ('o, 'a, 'r, 'm) event list \<times> ('e, 'g, 's, ('e, 'g, 's, 'o, 'r) frame) outcome" where
  "fit_body I action_repetition nb_max_random_start_steps fr =
     (if observation fr = None then
        (case start_episode I nb_max_random_start_steps fr of
           (evs, Inl err) \<Rightarrow> (evs, Inl err)
         | (evs, Inr fr1) \<Rightarrow>
             (case fit_step I action_repetition fr1 of (evs', out) \<Rightarrow> (evs @ evs', out)))
      else fit_step I action_repetition fr)"

definition fit_cond :: "int option \<Rightarrow> int option \<Rightarrow> ('e, 'g, 's, 'o, 'r) frame \<Rightarrow> bool" where
  "fit_cond nb_episodes nb_steps fr =
     ((case nb_episodes of None \<Rightarrow> True | Some n \<Rightarrow> episode fr < n) \<and>
      (case nb_steps of None \<Rightarrow> True | Some n \<Rightarrow> step fr < n))"

text \<open>The fuel bounds the number of iterations of the \<^verbatim>\<open>while\<close> loop.\<close>

fun fit_loop ::
  "nat \<Rightarrow> ('e, 'g, 's, 'o, 'a, 'r::{plus,zero}, 'm) impl \<Rightarrow> int option \<Rightarrow> int option \<Rightarrow> int \<Rightarrow> int \<Rightarrow>
     ('e, 'g, 's, 'o, 'r) frame \<Rightarrow>
     ('o, 'a, 'r, 'm) event list \<times> ('e, 'g, 's, ('e, 'g, 's, 'o, 'r) frame) outcome option" where
  "fit_loop 0 I nb_episodes nb_steps action_repetition nb_max_random_start_steps fr =
     (if fit_cond nb_episodes nb_steps fr then ([], None) else ([], Some (Inr fr)))"
| "fit_loop (Suc fuel) I nb_episodes nb_steps action_repetition nb_max_random_start_steps fr =
     (if fit_cond nb_episodes nb_steps fr then
        (case fit_body I action_repetition nb_max_random_start_steps fr of
           (evs, Inl err) \<Rightarrow> (evs, Some (Inl err))
         | (evs, Inr fr') \<Rightarrow>
             (case fit_loop fuel I nb_episodes nb_steps action_repetition
                     nb_max_random_start_steps fr' of
                (evs', out) \<Rightarrow> (evs @ evs', out)))
      else ([], Some (Inr fr)))"

subsection \<open>\<^verbatim>\<open>Agent.fit\<close> (lines 9-104)\<close>

text \<open>
  \<^verbatim>\<open>callbacks += [c]\<close> on a list extends the list object in place. The argument
  \<open>callbacks\<close> is \<open>None\<close> when the caller passes no list (the parameter is then bound
  to the default list of the function) and \<open>Some n\<close> for the caller's list \<open>n\<close>.
\<close>

definition list_extend ::
  "list_ref \<Rightarrow> callback list \<Rightarrow> ('e, 'g, 's) world \<Rightarrow> ('e, 'g, 's) world" where
  "list_extend ref cs w = w\<lparr>store := (store w)(ref := store w ref @ cs)\<rparr>"

definition fit_callbacks ::
  "list_ref \<Rightarrow> int option \<Rightarrow> int \<Rightarrow> bool \<Rightarrow> int \<Rightarrow> ('e, 'g, 's) world \<Rightarrow> ('e, 'g, 's) world" where
  "fit_callbacks ref nb_episodes verbose visualize log_interval w =
     (let w1 = (if verbose > 0 then
                  (if nb_episodes \<noteq> None then list_extend ref [TrainEpisodeLogger] w
                   else list_extend ref [TrainIntervalLogger log_interval] w)
                else w)
      in if visualize then list_extend ref [Visualizer] w1 else w1)"

definition fit ::
  "nat \<Rightarrow> ('e, 'g, 's, 'o, 'a, 'r::{plus,zero}, 'm) impl \<Rightarrow>
     int option \<Rightarrow> int option \<Rightarrow> int \<Rightarrow> nat option \<Rightarrow> int \<Rightarrow> bool \<Rightarrow> int \<Rightarrow> int \<Rightarrow> int \<Rightarrow>
     ('e, 'g, 's) world \<Rightarrow>
     ('o, 'a, 'r, 'm) event list \<times> ('e, 'g, 's, ('e, 'g, 's, 'o, 'r) frame) outcome option" where
  "fit fuel I nb_episodes nb_steps action_repetition callbacks verbose visualize
       validation_size nb_max_random_start_steps log_interval w =
     (if \<not> compiled (agent w) then ([], Some (Inl (RuntimeError, w)))
      else if action_repetition < 1 then ([], Some (Inl (ValueError, w)))
      else
        (let w1 = w\<lparr>agent := (agent w)\<lparr>training := True\<rparr>\<rparr>;
             ref = (case callbacks of None \<Rightarrow> Fit_default | Some n \<Rightarrow> Caller_list n);
             w2 = fit_callbacks ref nb_episodes verbose visualize log_interval w1;
             evs0 = [New_CallbackList (store w2 ref),
                     Set_model,
                     Set_params [(''nb_episodes'', PyIntOrNone nb_episodes),
                                 (''nb_steps'', PyIntOrNone nb_steps),
                                 (''env'', PyEnv)],
                     On_train_begin];
             fr0 = \<lparr>world = w2, episode = 0, step = 0, observation = None,
                    episode_reward = None, episode_step = None\<rparr>
         in case fit_loop fuel I nb_episodes nb_steps action_repetition
                   nb_max_random_start_steps fr0 of
              (evs, Some (Inr fr)) \<Rightarrow> (evs0 @ evs @ [On_train_end], Some (Inr fr))
            | (evs, out) \<Rightarrow> (evs0 @ evs, out)))"

subsection \<open>\<^verbatim>\<open>Agent.test\<close> (lines 106-156)\<close>

text \<open>
  The \<^verbatim>\<open>while not done\<close> loop of one episode (lines 136-151). The state is
  \<^verbatim>\<open>(observation, episode_reward, episode_step)\<close>, written \<open>(ob0, er, es)\<close>, and the
  world; the loop is entered with \<^verbatim>\<open>done\<close> false and left when a step sets it. The
  fuel bounds its iterations.
\<close>

fun test_steps ::
  "nat \<Rightarrow> ('e, 'g, 's, 'o, 'a, 'r::{plus,zero}, 'm) impl \<Rightarrow> int \<Rightarrow>
     'o option \<times> 'r \<times> int \<times> ('e, 'g, 's) world \<Rightarrow>
     ('o, 'a, 'r, 'm) event list \<times> ('o option \<times> 'r \<times> int \<times> ('e, 'g, 's) world) option" where
  "test_steps 0 I action_repetition st = ([], None)"
| "test_steps (Suc fuel) I action_repetition (ob0, er, es, w) =
     (case forward I ob0 (agent w) of (action, ag1) \<Rightarrow>
      case repeat_action I (nat action_repetition) action (ob0, 0, False, env w) of
        (evs, (ob, reward, done, e1)) \<Rightarrow>
      case backward I reward done ag1 of (metrics, ag2) \<Rightarrow>
      let evs1 = On_step_begin es # Forward ob0 action # evs
                   @ [Backward reward done metrics, On_step_end es None];
          st' = (ob, er + reward, es + 1, w\<lparr>env := e1, agent := ag2\<rparr>)
      in if done then (evs1, Some st')
         else (case test_steps fuel I action_repetition st' of
                 (evs', out) \<Rightarrow> (evs1 @ evs', out)))"

text \<open>The body of the \<^verbatim>\<open>for episode in xrange(nb_episodes)\<close> loop (lines 125-156).\<close>

definition test_episode ::
  "nat \<Rightarrow> ('e, 'g, 's, 'o, 'a, 'r::{plus,zero}, 'm) impl \<Rightarrow> int \<Rightarrow> int \<Rightarrow> ('e, 'g, 's) world \<Rightarrow>
     ('o, 'a, 'r, 'm) event list \<times> ('e, 'g, 's, ('e, 'g, 's) world) outcome option" where
  "test_episode fuel I action_repetition ep w =
     (let ag = reset_states I (agent w);
          evs0 = [On_episode_begin ep, Reset_states]
      in case env_reset I (env w) of (ob, e) \<Rightarrow>
         let w1 = w\<lparr>env := e, agent := ag\<rparr> in
         if ob = None then (evs0 @ [Env_reset ob], Some (Inl (AssertionError, w1)))
         else
           (case test_steps fuel I action_repetition (ob, 0, 0, w1) of
              (evs, None) \<Rightarrow> (evs0 @ Env_reset ob # evs, None)
            | (evs, Some (ob', er, es, w2)) \<Rightarrow>
                (let episode_logs = [(''episode_reward'', PyFloat er),
                                     (''nb_steps'', PyInt es)]
                 in (evs0 @ Env_reset ob # evs @ [On_episode_end ep episode_logs],
                     Some (Inr w2)))))"

text \<open>The \<^verbatim>\<open>for\<close> loop over the episode indices still to run.\<close>

fun test_episodes ::
  "nat \<Rightarrow> ('e, 'g, 's, 'o, 'a, 'r::{plus,zero}, 'm) impl \<Rightarrow> int \<Rightarrow> int list \<Rightarrow> ('e, 'g, 's) world \<Rightarrow>
     ('o, 'a, 'r, 'm) event list \<times> ('e, 'g, 's, ('e, 'g, 's) world) outcome option" where
  "test_episodes fuel I action_repetition [] w = ([], Some (Inr w))"
| "test_episodes fuel I action_repetition (ep # episodes) w =
     (case test_episode fuel I action_repetition ep w of
        (evs, Some (Inr w')) \<Rightarrow>
          (case test_episodes fuel I action_repetition episodes w' of
             (evs', out) \<Rightarrow> (evs @ evs', out))
      | (evs, out) \<Rightarrow> (evs, out))"

definition test ::
  "nat \<Rightarrow> ('e, 'g, 's, 'o, 'a, 'r::{plus,zero}, 'm) impl \<Rightarrow>
     int \<Rightarrow> int \<Rightarrow> nat option \<Rightarrow> bool \<Rightarrow> ('e, 'g, 's) world \<Rightarrow>
     ('o, 'a, 'r, 'm) event list \<times> ('e, 'g, 's, ('e, 'g, 's) world) outcome option" where
  "test fuel I nb_episodes action_repetition callbacks visualize w =
     (if \<not> compiled (agent w) then ([], Some (Inl (RuntimeError, w)))
      else if action_repetition < 1 then ([], Some (Inl (ValueError, w)))
      else
        (let w1 = w\<lparr>agent := (agent w)\<lparr>training := False\<rparr>\<rparr>;
             ref = (case callbacks of None \<Rightarrow> Test_default | Some n \<Rightarrow> Caller_list n);
             w2 = list_extend ref [TestLogger] w1;
             w3 = (if visualize then list_extend ref [Visualizer] w2 else w2);
             evs0 = [New_CallbackList (store w3 ref),
                     Set_model,
                     Set_params [(''nb_episodes'', PyInt nb_episodes), (''env'', PyEnv)]]
         in case test_episodes fuel I action_repetition [0..nb_episodes - 1] w3 of
              (evs, out) \<Rightarrow> (evs0 @ evs, out)))"

section \<open>Notions used in the statements\<close>

text \<open>The world in which a call of \<^verbatim>\<open>fit\<close>, respectively \<^verbatim>\<open>test\<close>, has ended.\<close>

definition fit_world ::
  "('e, 'g, 's, ('e, 'g, 's, 'o, 'r) frame) outcome \<Rightarrow> ('e, 'g, 's) world" where
  "fit_world out = (case out of Inl (err, w) \<Rightarrow> w | Inr fr \<Rightarrow> world fr)"

definition test_world ::
  "('e, 'g, 's, ('e, 'g, 's) world) outcome \<Rightarrow> ('e, 'g, 's) world" where
  "test_world out = (case out of Inl (err, w) \<Rightarrow> w | Inr w \<Rightarrow> w)"

text \<open>The callbacks lines 18-24, respectively 114-116, append.\<close>

definition fit_appended :: "int option \<Rightarrow> int \<Rightarrow> bool \<Rightarrow> int \<Rightarrow> callback list" where
  "fit_appended nb_episodes verbose visualize log_interval =
     (if verbose > 0 then
        (if nb_episodes \<noteq> None then [TrainEpisodeLogger]
         else [TrainIntervalLogger log_interval])
      else []) @ (if visualize then [Visualizer] else [])"

definition test_appended :: "bool \<Rightarrow> callback list" where
  "test_appended visualize = TestLogger # (if visualize then [Visualizer] else [])"

text \<open>
  An environment honours the contract of \<^verbatim>\<open>Env\<close> when \<^verbatim>\<open>reset\<close> returns an
  observation and \<^verbatim>\<open>step\<close> returns one as long as the episode goes on (Python's
  \<^verbatim>\<open>None\<close> is no observation).
\<close>

definition env_conforms :: "('e, 'g, 's, 'o, 'a, 'r, 'm) impl \<Rightarrow> bool" where
  "env_conforms I \<longleftrightarrow>
     (\<forall>e ob e'. env_reset I e = (ob, e') \<longrightarrow> ob \<noteq> None) \<and>
     (\<forall>a e ob r d e'. env_step I a e = ((ob, r, d), e') \<longrightarrow> \<not> d \<longrightarrow> ob \<noteq> None)"


text \<open>
  The events of one step and of the start of an episode, as opposed to the
  notifications of the boundaries of an episode and of the training.
\<close>

fun inner_event :: "('o, 'a, 'r, 'm) event \<Rightarrow> bool" where
  "inner_event (On_step_begin i) = True"
| "inner_event (On_step_end i logs) = True"
| "inner_event Reset_states = True"
| "inner_event (Forward ob a) = True"
| "inner_event (Backward r t m) = True"
| "inner_event (Env_reset ob) = True"
| "inner_event (Env_sample a) = True"
| "inner_event (Env_step a ob r d) = True"
| "inner_event (Randint v n) = True"
| "inner_event (Warn n) = True"
| "inner_event ev = False"

text \<open>The arguments of the \<^verbatim>\<open>on_episode_begin\<close> and \<^verbatim>\<open>on_episode_end\<close> calls of a trace.\<close>

fun episode_begin_index :: "('o, 'a, 'r, 'm) event \<Rightarrow> int option" where
  "episode_begin_index (On_episode_begin e) = Some e"
| "episode_begin_index ev = None"

fun episode_end_args :: "('o, 'a, 'r, 'm) event \<Rightarrow> (int \<times> ('o, 'a, 'r, 'm) pydict) option" where
  "episode_end_args (On_episode_end e logs) = Some (e, logs)"
| "episode_end_args ev = None"

definition episode_begins :: "('o, 'a, 'r, 'm) event list \<Rightarrow> int list" where
  "episode_begins tr = List.map_filter episode_begin_index tr"

definition episode_ends :: "('o, 'a, 'r, 'm) event list \<Rightarrow> (int \<times> ('o, 'a, 'r, 'm) pydict) list" where
  "episode_ends tr = List.map_filter episode_end_args tr"


text \<open>
  The frame in which \<^verbatim>\<open>fit\<close> enters its loop (lines 34-38), the world its prologue
  leaves (lines 16-24) and the calls it makes before \<^verbatim>\<open>on_train_begin\<close> (lines 25-31).
\<close>

definition fit_frame0 :: "('e, 'g, 's) world \<Rightarrow> ('e, 'g, 's, 'o, 'r) frame" where
  "fit_frame0 w = \<lparr>world = w, episode = 0, step = 0, observation = None,
                   episode_reward = None, episode_step = None\<rparr>"

definition fit_prologue ::
  "int option \<Rightarrow> int option \<Rightarrow> nat option \<Rightarrow> int \<Rightarrow> bool \<Rightarrow> int \<Rightarrow> ('e, 'g, 's) world \<Rightarrow> ('e, 'g, 's) world" where
  "fit_prologue nbe nbs cbs verbose vis li w =
     fit_callbacks (case cbs of None \<Rightarrow> Fit_default | Some n \<Rightarrow> Caller_list n) nbe verbose vis li
       (w\<lparr>agent := (agent w)\<lparr>training := True\<rparr>\<rparr>)"

definition fit_setup ::
  "int option \<Rightarrow> int option \<Rightarrow> nat option \<Rightarrow> int \<Rightarrow> bool \<Rightarrow> int \<Rightarrow> ('e, 'g, 's) world \<Rightarrow>
     ('o, 'a, 'r, 'm) event list" where
  "fit_setup nbe nbs cbs verbose vis li w =
     [New_CallbackList (store (fit_prologue nbe nbs cbs verbose vis li w)
                          (case cbs of None \<Rightarrow> Fit_default | Some n \<Rightarrow> Caller_list n)),
      Set_model,
      Set_params [(''nb_episodes'', PyIntOrNone nbe), (''nb_steps'', PyIntOrNone nbs),
                  (''env'', PyEnv)]]"

text \<open>
  An environment that returns \<^verbatim>\<open>done\<close> on the very first step after a reset: in the
  state a reset leaves, every step ends the episode.
\<close>

definition first_step_done :: "('e, 'g, 's, 'o, 'a, 'r, 'm) impl \<Rightarrow> bool" where
  "first_step_done I \<longleftrightarrow>
     (\<forall>e a. snd (snd (fst (env_step I a (snd (env_reset I e))))))"

definition after_reset :: "('e, 'g, 's, 'o, 'a, 'r, 'm) impl \<Rightarrow> 'e \<Rightarrow> bool" where
  "after_reset I e' \<longleftrightarrow> (\<exists>e. e' = snd (env_reset I e))"

subsection \<open>Notions for the traces of steps\<close>

text \<open>
  The result \<^verbatim>\<open>(observation, reward, done)\<close> of a call of \<^verbatim>\<open>env.step\<close>, its parts,
  and the event of the call.
\<close>

fun step_event :: "'a \<Rightarrow> 'o option \<times> 'r \<times> bool \<Rightarrow> ('o, 'a, 'r, 'm) event" where
  "step_event a (ob, r, d) = Env_step a ob r d"

fun step_reward :: "'o option \<times> 'r \<times> bool \<Rightarrow> 'r" where
  "step_reward (ob, r, d) = r"

fun step_done :: "'o option \<times> 'r \<times> bool \<Rightarrow> bool" where
  "step_done (ob, r, d) = d"

text \<open>
  The calls of \<^verbatim>\<open>env.step\<close> made for one action with \<^verbatim>\<open>action_repetition = k\<close>: at
  least one and at most \<open>k\<close>; none after one that returned \<^verbatim>\<open>done\<close>; fewer than \<open>k\<close> only
  when the last one returned \<^verbatim>\<open>done\<close>.
\<close>

definition repetition_ok :: "nat \<Rightarrow> ('o option \<times> 'r \<times> bool) list \<Rightarrow> bool" where
  "repetition_ok k rs \<longleftrightarrow>
     rs \<noteq> [] \<and> length rs \<le> k
     \<and> (\<forall>i. Suc i < length rs \<longrightarrow> \<not> step_done (rs ! i))
     \<and> (length rs < k \<longrightarrow> step_done (last rs))"

text \<open>
  Every call of \<^verbatim>\<open>forward\<close> in the trace is followed at once by such calls of
  \<^verbatim>\<open>env.step\<close>, all with the action \<^verbatim>\<open>forward\<close> returned, and then by the call of
  \<^verbatim>\<open>backward\<close>, whose reward is the sum, from \<open>0\<close> and in the order of the calls, of the
  rewards these steps returned, and whose \<^verbatim>\<open>terminal\<close> flag is the \<^verbatim>\<open>done\<close> of the last.
\<close>

definition forward_blocks :: "int \<Rightarrow> ('o, 'a, 'r::{plus,zero}, 'm) event list \<Rightarrow> bool" where
  "forward_blocks k tr \<longleftrightarrow>
     (\<forall>pre ob a rest. tr = pre @ Forward ob a # rest \<longrightarrow>
        (\<exists>rs m rest'.
           rest = map (step_event a) rs
                    @ Backward (foldl (+) 0 (map step_reward rs)) (step_done (last rs)) m # rest'
           \<and> repetition_ok (nat k) rs))"

fun is_forward :: "('o, 'a, 'r, 'm) event \<Rightarrow> bool" where
  "is_forward (Forward ob a) = True"
| "is_forward ev = False"

text \<open>
  The events of the start of an episode in \<^verbatim>\<open>fit\<close> (lines 46-58): none of them is a
  notification of a step, a \<^verbatim>\<open>forward\<close> or a \<^verbatim>\<open>backward\<close>.
\<close>

fun start_event :: "('o, 'a, 'r, 'm) event \<Rightarrow> bool" where
  "start_event Reset_states = True"
| "start_event (Env_reset ob) = True"
| "start_event (Randint v n) = True"
| "start_event (Env_sample a) = True"
| "start_event (Env_step a ob r d) = True"
| "start_event (Warn n) = True"
| "start_event ev = False"

text \<open>The world the prologue of \<^verbatim>\<open>test\<close> leaves (lines 112-116) and its first calls.\<close>

definition test_prologue :: "nat option \<Rightarrow> bool \<Rightarrow> ('e, 'g, 's) world \<Rightarrow> ('e, 'g, 's) world" where
  "test_prologue cbs vis w =
     (let ref = (case cbs of None \<Rightarrow> Test_default | Some n \<Rightarrow> Caller_list n);
          w2 = list_extend ref [TestLogger] (w\<lparr>agent := (agent w)\<lparr>training := False\<rparr>\<rparr>)
      in if vis then list_extend ref [Visualizer] w2 else w2)"

definition test_setup ::
  "int \<Rightarrow> nat option \<Rightarrow> bool \<Rightarrow> ('e, 'g, 's) world \<Rightarrow> ('o, 'a, 'r, 'm) event list" where
  "test_setup n cbs vis w =
     [New_CallbackList (store (test_prologue cbs vis w)
                          (case cbs of None \<Rightarrow> Test_default | Some n \<Rightarrow> Caller_list n)),
      Set_model,
      Set_params [(''nb_episodes'', PyInt n), (''env'', PyEnv)]]"

subsection \<open>Notions for the reward of an episode\<close>

text \<open>
  The reward of each recorded step of a trace, recomputed from the calls of
  \<^verbatim>\<open>env.step\<close>: for every call of \<^verbatim>\<open>forward\<close>, the sum, from \<open>0\<close> and in order, of the
  rewards of the calls of \<^verbatim>\<open>env.step\<close> that follow it directly. The steps of a random
  start follow no \<^verbatim>\<open>forward\<close> and are not counted.
\<close>

fun leading_step_rewards :: "('o, 'a, 'r, 'm) event list \<Rightarrow> 'r list" where
  "leading_step_rewards (Env_step a ob r d # tr) = r # leading_step_rewards tr"
| "leading_step_rewards tr = []"

fun per_step_rewards :: "('o, 'a, 'r::{plus,zero}, 'm) event list \<Rightarrow> 'r list" where
  "per_step_rewards [] = []"
| "per_step_rewards (Forward ob a # tr) =
     foldl (+) 0 (leading_step_rewards tr) # per_step_rewards tr"
| "per_step_rewards (ev # tr) = per_step_rewards tr"

text \<open>
  For every \<^verbatim>\<open>on_episode_end\<close> of the trace, with \<open>seg\<close> the events since the last
  \<^verbatim>\<open>on_episode_begin\<close> before it: the two calls carry the same episode index, and the
  \<^verbatim>\<open>episode_reward\<close> of the log is the sum, from \<open>0\<close> and in order, of the rewards of
  the recorded steps of \<open>seg\<close>.
\<close>

definition episode_rewards_ok :: "('o, 'a, 'r::{plus,zero}, 'm) event list \<Rightarrow> bool" where
  "episode_rewards_ok tr \<longleftrightarrow>
     (\<forall>pre e seg e' logs rest.
        tr = pre @ On_episode_begin e # seg @ On_episode_end e' logs # rest \<longrightarrow>
        episode_begins seg = [] \<longrightarrow>
        e' = e \<and>
        map_of logs ''episode_reward'' = Some (PyFloat (foldl (+) 0 (per_step_rewards seg))))"

text \<open>
  The same read from the left: the index of the last \<^verbatim>\<open>on_episode_begin\<close> and the
  events since, if there is one.
\<close>

fun since_begin ::
  "(int \<times> ('o, 'a, 'r, 'm) event list) option \<Rightarrow> ('o, 'a, 'r, 'm) event list \<Rightarrow>
     (int \<times> ('o, 'a, 'r, 'm) event list) option" where
  "since_begin st [] = st"
| "since_begin st (On_episode_begin e # tr) = since_begin (Some (e, [])) tr"
| "since_begin st (ev # tr) = since_begin (map_option (\<lambda>(e, seg). (e, seg @ [ev])) st) tr"

definition rewards_tracked :: "('o, 'a, 'r::{plus,zero}, 'm) event list \<Rightarrow> bool" where
  "rewards_tracked tr \<longleftrightarrow>
     (\<forall>p e' logs rest e seg.
        tr = p @ On_episode_end e' logs # rest \<longrightarrow> since_begin None p = Some (e, seg) \<longrightarrow>
        e' = e \<and>
        map_of logs ''episode_reward'' = Some (PyFloat (foldl (+) 0 (per_step_rewards seg))))"

text \<open>
  A piece of trace whose recorded steps are complete: what follows it does not change
  the rewards read off it.
\<close>

definition stable :: "('o, 'a, 'r::{plus,zero}, 'm) event list \<Rightarrow> bool" where
  "stable seg \<longleftrightarrow> (\<forall>more. per_step_rewards (seg @ more) = per_step_rewards seg @ per_step_rewards more)"

text \<open>The accumulator \<^verbatim>\<open>episode_reward\<close> of a frame agrees with the trace so far.\<close>

definition rewards_follow ::
  "('o, 'a, 'r::{plus,zero}, 'm) event list \<Rightarrow> ('e, 'g, 's, 'o, 'r) frame \<Rightarrow> bool" where
  "rewards_follow hist fr \<longleftrightarrow>
     (observation fr \<noteq> None \<longrightarrow>
        (\<exists>seg. since_begin None hist = Some (episode fr, seg) \<and> stable seg
           \<and> episode_reward fr = Some (foldl (+) 0 (per_step_rewards seg))))"

subsection \<open>Notions for random starts\<close>

fun is_env_step :: "('o, 'a, 'r, 'm) event \<Rightarrow> bool" where
  "is_env_step (Env_step a ob r d) = True"
| "is_env_step ev = False"

fun is_step_begin :: "('o, 'a, 'r, 'm) event \<Rightarrow> bool" where
  "is_step_begin (On_step_begin i) = True"
| "is_step_begin ev = False"

definition env_step_count :: "('o, 'a, 'r, 'm) event list \<Rightarrow> nat" where
  "env_step_count tr = length (filter is_env_step tr)"

text \<open>The contract of \<^verbatim>\<open>np.random.randint(v)\<close> for \<open>v > 0\<close>: a draw from \<open>[0, v)\<close>.\<close>

definition randint_in_range :: "('e, 'g, 's, 'o, 'a, 'r, 'm) impl \<Rightarrow> int \<Rightarrow> bool" where
  "randint_in_range I v \<longleftrightarrow> (\<forall>s. 0 \<le> fst (np_randint I v s) \<and> fst (np_randint I v s) < v)"

text \<open>
  The events between \<^verbatim>\<open>on_episode_begin\<close> and the first recorded step: only events
  of the start of an episode, with no call of \<^verbatim>\<open>env.step\<close> when
  \<^verbatim>\<open>nb_max_random_start_steps\<close> is \<open>0\<close> and fewer than \<^verbatim>\<open>nb_max_random_start_steps\<close>
  when it is positive.
\<close>

definition warm_up_ok :: "int \<Rightarrow> ('o, 'a, 'r, 'm) event list \<Rightarrow> bool" where
  "warm_up_ok v warm \<longleftrightarrow>
     list_all start_event warm
     \<and> (v = 0 \<longrightarrow> env_step_count warm = 0)
     \<and> (0 < v \<longrightarrow> int (env_step_count warm) < v)"

text \<open>
  Every \<^verbatim>\<open>on_episode_begin\<close> of the trace is followed by such events and then, unless
  the trace ends there (the call has raised), by \<^verbatim>\<open>on_step_begin(0)\<close> and the
  \<^verbatim>\<open>forward\<close> of the first recorded step.
\<close>

definition episode_starts_ok :: "int \<Rightarrow> ('o, 'a, 'r, 'm) event list \<Rightarrow> bool" where
  "episode_starts_ok v tr \<longleftrightarrow>
     (\<forall>pre e rest. tr = pre @ On_episode_begin e # rest \<longrightarrow>
        (\<exists>warm rest'. rest = warm @ rest' \<and> warm_up_ok v warm
           \<and> (rest' = [] \<or> (\<exists>ob a rest''. rest' = On_step_begin 0 # Forward ob a # rest''))))"

text \<open>The same, where \<open>strict\<close> excludes that the trace ends after the start.\<close>

definition starts_upto :: "int \<Rightarrow> bool \<Rightarrow> ('o, 'a, 'r, 'm) event list \<Rightarrow> bool" where
  "starts_upto v strict tr \<longleftrightarrow>
     (\<forall>pre e rest. tr = pre @ On_episode_begin e # rest \<longrightarrow>
        (\<exists>warm rest'. rest = warm @ rest' \<and> warm_up_ok v warm
           \<and> ((\<not> strict \<and> rest' = [])
                \<or> (\<exists>ob a rest''. rest' = On_step_begin 0 # Forward ob a # rest''))))"

text \<open>
  The global step count that \<^verbatim>\<open>on_episode_end\<close> reports is the number of
  \<^verbatim>\<open>on_step_begin\<close> notifications so far, that is of recorded steps.
\<close>

definition steps_counted :: "('o, 'a, 'r, 'm) event list \<Rightarrow> bool" where
  "steps_counted tr \<longleftrightarrow>
     (\<forall>p e logs rest. tr = p @ On_episode_end e logs # rest \<longrightarrow>
        map_of logs ''nb_steps'' = Some (PyInt (int (length (filter is_step_begin p)))))"

section \<open>A concrete environment and agent\<close>

text \<open>
  The scenario of the specification: episodes of two steps with reward 1 per step.
  The state of the environment is the number of steps left, which is also the
  observation. The agent always plays action 7 and reports metrics 0. The random
  source is a counter.
\<close>

definition example_impl :: "(nat, nat, nat, nat, nat, int, nat) impl" where
  "example_impl =
     \<lparr>env_reset = (\<lambda>e. (Some 2, 2)),
      env_step = (\<lambda>a e. ((Some (e - 1), 1, e \<le> 1), e - 1)),
      space_sample = (\<lambda>s. (s, Suc s)),
      np_randint = (\<lambda>v s. (int s mod v, Suc s)),
      reset_states = (\<lambda>g. g),
      forward = (\<lambda>ob g. (7, g)),
      backward = (\<lambda>r t g. (0, g))\<rparr>"

definition example_world :: "(nat, nat, nat) world" where
  "example_world =
     \<lparr>env = 0, agent = \<lparr>compiled = True, training = False, inner = 0\<rparr>, rnd = 0,
      store = (\<lambda>_. [])\<rparr>"

definition example_uncompiled :: "(nat, nat, nat) world" where
  "example_uncompiled =
     example_world\<lparr>agent := \<lparr>compiled = False, training = False, inner = 0\<rparr>\<rparr>"

text \<open>The world after one call of \<^verbatim>\<open>fit\<close> with one episode and no \<^verbatim>\<open>callbacks\<close> argument.\<close>

definition example_after_fit :: "(nat, nat, nat) world" where
  "example_after_fit =
     (case snd (fit 9 example_impl (Some 1) None 1 None 1 False 1000 0 10000 example_world) of
        Some out \<Rightarrow> fit_world out
      | None \<Rightarrow> example_world)"

text \<open>The same with episodes of one step: every step ends the episode.\<close>

definition example_one_step_impl :: "(nat, nat, nat, nat, nat, int, nat) impl" where
  "example_one_step_impl = example_impl\<lparr>env_step := (\<lambda>a e. ((Some 0, 1, True), 0))\<rparr>"

section \<open>The argument checks\<close>

text \<open>
  C6. A call of \<^verbatim>\<open>fit\<close> or \<^verbatim>\<open>test\<close> on an agent whose \<^verbatim>\<open>compiled\<close> flag is false
  raises the "not compiled" error (\<^verbatim>\<open>RuntimeError\<close>) and has done nothing before: the
  trace of calls is empty, so no method of \<^verbatim>\<open>env\<close> has been invoked, and the world is
  the one of the call.
\<close>

theorem uncompiled_raises_first:
  assumes "\<not> compiled (agent w)"
  shows "fit fuel I nb_episodes nb_steps action_repetition callbacks verbose visualize
             validation_size nb_max_random_start_steps log_interval w
           = ([], Some (Inl (RuntimeError, w)))
       \<and> test fuel' I test_nb_episodes test_action_repetition test_callbacks test_visualize w
           = ([], Some (Inl (RuntimeError, w)))"
  using assms by (simp add: fit_def test_def)

theorem uncompiled_raises_first_witness:
  "\<not> compiled (agent example_uncompiled)
   \<and> fit 9 example_impl (Some 3) None 1 None 1 False 1000 0 10000 example_uncompiled
       = ([], Some (Inl (RuntimeError, example_uncompiled)))
   \<and> test 9 example_impl 3 1 None True example_uncompiled
       = ([], Some (Inl (RuntimeError, example_uncompiled)))"
  using uncompiled_raises_first [where w = example_uncompiled and I = example_impl
      and fuel = 9 and fuel' = 9 and nb_episodes = "Some 3" and nb_steps = None
      and action_repetition = 1 and callbacks = None and verbose = 1 and visualize = False
      and validation_size = 1000 and nb_max_random_start_steps = 0 and log_interval = 10000
      and test_nb_episodes = 3 and test_action_repetition = 1 and test_callbacks = None
      and test_visualize = True]
  by (simp add: example_uncompiled_def)

text \<open>
  C7. A call of \<^verbatim>\<open>fit\<close> or \<^verbatim>\<open>test\<close> on a compiled agent with
  \<^verbatim>\<open>action_repetition < 1\<close> raises the invalid-argument error (\<^verbatim>\<open>ValueError\<close>) and
  has done nothing before: the trace of calls is empty, so no method of \<^verbatim>\<open>env\<close> has
  been invoked, and the world is the one of the call.
\<close>

theorem bad_action_repetition_raises_first:
  assumes "compiled (agent w)" and "action_repetition < 1"
  shows "fit fuel I nb_episodes nb_steps action_repetition callbacks verbose visualize
             validation_size nb_max_random_start_steps log_interval w
           = ([], Some (Inl (ValueError, w)))
       \<and> test fuel' I test_nb_episodes action_repetition test_callbacks test_visualize w
           = ([], Some (Inl (ValueError, w)))"
  using assms by (simp add: fit_def test_def)

theorem bad_action_repetition_raises_first_witness:
  "compiled (agent example_world) \<and> (0::int) < 1
   \<and> fit 9 example_impl (Some 3) None 0 None 1 False 1000 0 10000 example_world
       = ([], Some (Inl (ValueError, example_world)))
   \<and> test 9 example_impl 3 0 None True example_world
       = ([], Some (Inl (ValueError, example_world)))"
  using bad_action_repetition_raises_first [where w = example_world and I = example_impl
      and fuel = 9 and fuel' = 9 and nb_episodes = "Some 3" and nb_steps = None
      and action_repetition = 0 and callbacks = None and verbose = 1 and visualize = False
      and validation_size = 1000 and nb_max_random_start_steps = 0 and log_interval = 10000
      and test_nb_episodes = 3 and test_callbacks = None and test_visualize = True]
  by (simp add: example_world_def)

section \<open>The unused parameter\<close>

text \<open>
  C10. \<^verbatim>\<open>validation_size\<close> has no effect on \<^verbatim>\<open>fit\<close>: two calls that differ in this
  argument only produce the same trace of calls (to the environment, the agent, the
  callbacks, the random source) and the same outcome, final state included.
\<close>

theorem validation_size_unused:
  "fit fuel I nb_episodes nb_steps action_repetition callbacks verbose visualize
       v1 nb_max_random_start_steps log_interval w
   = fit fuel I nb_episodes nb_steps action_repetition callbacks verbose visualize
       v2 nb_max_random_start_steps log_interval w"
  by (simp add: fit_def)

section \<open>The default list of the \<^verbatim>\<open>callbacks\<close> parameter\<close>

text \<open>The loops never touch the store of lists: only the prologues of the calls do.\<close>

lemma start_episode_store:
  "start_episode I v fr = (evs, out) \<Longrightarrow> store (fit_world out) = store (world fr)"
  by (auto simp: start_episode_def fit_world_def Let_def split: prod.splits if_splits sum.splits)

lemma fit_step_store:
  "fit_step I k fr = (evs, out) \<Longrightarrow> store (fit_world out) = store (world fr)"
  by (auto simp: fit_step_def fit_world_def Let_def
           split: prod.splits if_splits sum.splits option.splits)

lemma fit_body_store:
  "fit_body I k v fr = (evs, out) \<Longrightarrow> store (fit_world out) = store (world fr)"
  unfolding fit_body_def
  by (auto split: prod.splits if_splits sum.splits
           dest!: start_episode_store fit_step_store simp: fit_world_def)

lemma fit_loop_store:
  "fit_loop fuel I nbe nbs k v fr = (evs, Some out) \<Longrightarrow> store (fit_world out) = store (world fr)"
proof (induction fuel arbitrary: fr evs)
  case 0
  then show ?case by (auto simp: fit_world_def split: if_splits)
next
  case (Suc fuel)
  show ?case
  proof (cases "fit_cond nbe nbs fr")
    case False
    with Suc.prems show ?thesis by (auto simp: fit_world_def)
  next
    case True
    obtain evs1 out1 where b: "fit_body I k v fr = (evs1, out1)"
      by (cases "fit_body I k v fr")
    show ?thesis
    proof (cases out1)
      case (Inl err)
      with Suc.prems True b fit_body_store[OF b] show ?thesis by auto
    next
      case (Inr fr')
      with Suc.prems True b obtain evs2
        where "fit_loop fuel I nbe nbs k v fr' = (evs2, Some out)"
        by (auto split: prod.splits)
      from Suc.IH[OF this] fit_body_store[OF b] Inr show ?thesis
        by (simp add: fit_world_def)
    qed
  qed
qed

lemma test_steps_store:
  "test_steps fuel I k (ob, er, es, w) = (evs, Some (ob', er', es', w')) \<Longrightarrow> store w' = store w"
proof (induction fuel arbitrary: ob er es w evs)
  case 0
  then show ?case by simp
next
  case (Suc fuel)
  then show ?case
    by (fastforce simp: Let_def split: prod.splits if_splits)
qed

lemma test_episode_store:
  "test_episode fuel I k ep w = (evs, Some out) \<Longrightarrow> store (test_world out) = store w"
  by (auto simp: test_episode_def test_world_def Let_def
           split: prod.splits if_splits option.splits dest!: test_steps_store)

lemma test_episodes_store:
  "test_episodes fuel I k eps w = (evs, Some out) \<Longrightarrow> store (test_world out) = store w"
proof (induction eps arbitrary: w evs)
  case Nil
  then show ?case by (auto simp: test_world_def)
next
  case (Cons ep eps)
  obtain evs1 o1 where e: "test_episode fuel I k ep w = (evs1, o1)"
    by (cases "test_episode fuel I k ep w")
  show ?case
  proof (cases o1)
    case None
    with Cons.prems e show ?thesis by simp
  next
    case (Some out1)
    note s = this
    show ?thesis
    proof (cases out1)
      case (Inl a)
      with Cons.prems e s test_episode_store[of fuel I k ep w evs1 out1] show ?thesis
        by auto
    next
      case (Inr w')
      with Cons.prems e s obtain evs2
        where "test_episodes fuel I k eps w' = (evs2, Some out)"
        by (auto split: prod.splits)
      from Cons.IH[OF this] test_episode_store[of fuel I k ep w evs1 out1] e s Inr
      show ?thesis by (simp add: test_world_def)
    qed
  qed
qed

lemma fit_callbacks_store:
  "store (fit_callbacks ref nbe verbose vis li w) =
     (store w)(ref := store w ref @ fit_appended nbe verbose vis li)"
  by (auto simp: fit_callbacks_def list_extend_def fit_appended_def Let_def)

text \<open>
  C9. A call of \<^verbatim>\<open>fit\<close> or \<^verbatim>\<open>test\<close> without \<^verbatim>\<open>callbacks\<close> argument (and passing
  the two argument checks) extends the default list of the function in place: the
  callback list it builds is the contents the default list has at the call, followed
  by the logger and visualizer the call appends; and however the call ends, the
  default list then holds exactly that, the rest of the store being unchanged. The
  world \<open>w\<close> is arbitrary, so this holds for the world a previous call has left: the
  callbacks appended by earlier calls are still in the list and go into the callback
  list of every later call without \<^verbatim>\<open>callbacks\<close> argument. \<^verbatim>\<open>fit\<close> and \<^verbatim>\<open>test\<close> each
  have their own default list.
\<close>

theorem default_callbacks_accumulate:
  assumes "compiled (agent w)" and "1 \<le> action_repetition"
  shows "(\<exists>evs. fst (fit fuel I nb_episodes nb_steps action_repetition None verbose visualize
                       validation_size nb_max_random_start_steps log_interval w) =
              New_CallbackList (store w Fit_default
                                 @ fit_appended nb_episodes verbose visualize log_interval) # evs)
       \<and> (\<forall>out. snd (fit fuel I nb_episodes nb_steps action_repetition None verbose visualize
                       validation_size nb_max_random_start_steps log_interval w) = Some out \<longrightarrow>
              store (fit_world out) =
                (store w)(Fit_default := store w Fit_default
                                          @ fit_appended nb_episodes verbose visualize log_interval))
       \<and> (\<exists>evs. fst (test fuel' I test_nb_episodes action_repetition None test_visualize w) =
              New_CallbackList (store w Test_default @ test_appended test_visualize) # evs)
       \<and> (\<forall>out. snd (test fuel' I test_nb_episodes action_repetition None test_visualize w)
                  = Some out \<longrightarrow>
              store (test_world out) =
                (store w)(Test_default := store w Test_default @ test_appended test_visualize))"
proof (intro conjI allI impI)
  let ?w2 = "fit_callbacks Fit_default nb_episodes verbose visualize log_interval
               (w\<lparr>agent := (agent w)\<lparr>training := True\<rparr>\<rparr>)"
  let ?fr0 = "\<lparr>world = ?w2, episode = 0, step = 0, observation = None,
               episode_reward = None, episode_step = None\<rparr>"
  let ?fit = "fit fuel I nb_episodes nb_steps action_repetition None verbose visualize
                validation_size nb_max_random_start_steps log_interval w"
  obtain evs out
    where l: "fit_loop fuel I nb_episodes nb_steps action_repetition
                nb_max_random_start_steps ?fr0 = (evs, out)"
    by (cases "fit_loop fuel I nb_episodes nb_steps action_repetition
                 nb_max_random_start_steps ?fr0")
  show "\<exists>evs. fst ?fit =
          New_CallbackList (store w Fit_default
                             @ fit_appended nb_episodes verbose visualize log_interval) # evs"
    using assms l
    by (auto simp: fit_def Let_def fit_callbacks_store split: option.splits sum.splits)
  show "store (fit_world out') =
          (store w)(Fit_default := store w Fit_default
                                    @ fit_appended nb_episodes verbose visualize log_interval)"
    if "snd ?fit = Some out'" for out'
  proof -
    from that assms l have "out = Some out'"
      by (auto simp: fit_def Let_def split: option.splits sum.splits)
    with l fit_loop_store[of fuel I nb_episodes nb_steps action_repetition
                             nb_max_random_start_steps ?fr0 evs out']
    show ?thesis by (simp add: fit_callbacks_store)
  qed
next
  let ?w2 = "list_extend Test_default [TestLogger] (w\<lparr>agent := (agent w)\<lparr>training := False\<rparr>\<rparr>)"
  let ?w3 = "if test_visualize then list_extend Test_default [Visualizer] ?w2 else ?w2"
  let ?test = "test fuel' I test_nb_episodes action_repetition None test_visualize w"
  have w3: "store ?w3 = (store w)(Test_default := store w Test_default
                                                   @ test_appended test_visualize)"
    by (auto simp: list_extend_def test_appended_def)
  obtain evs out
    where l: "test_episodes fuel' I action_repetition [0..test_nb_episodes - 1] ?w3 = (evs, out)"
    by (cases "test_episodes fuel' I action_repetition [0..test_nb_episodes - 1] ?w3")
  show "\<exists>evs. fst ?test = New_CallbackList (store w Test_default
                                               @ test_appended test_visualize) # evs"
    using assms l w3 by (auto simp: test_def Let_def)
  show "store (test_world out') =
          (store w)(Test_default := store w Test_default @ test_appended test_visualize)"
    if "snd ?test = Some out'" for out'
  proof -
    from that assms l have "out = Some out'"
      by (auto simp: test_def Let_def)
    with l test_episodes_store[of fuel' I action_repetition "[0..test_nb_episodes - 1]"
                                  ?w3 evs out'] w3
    show ?thesis by simp
  qed
qed

theorem default_callbacks_accumulate_witness:
  "compiled (agent example_after_fit) \<and> (1::int) \<le> 1
   \<and> store example_after_fit Fit_default = [TrainEpisodeLogger]
   \<and> (\<exists>evs. fst (fit 9 example_impl (Some 1) None 1 None 1 True 1000 0 10000
                    example_after_fit) =
          New_CallbackList [TrainEpisodeLogger, TrainEpisodeLogger, Visualizer] # evs)
   \<and> snd (fit 9 example_impl (Some 1) None 1 None 1 True 1000 0 10000 example_after_fit) \<noteq> None
   \<and> store (fit_world (the (snd (fit 9 example_impl (Some 1) None 1 None 1 True 1000 0 10000
                                    example_after_fit)))) Fit_default
         = [TrainEpisodeLogger, TrainEpisodeLogger, Visualizer]
   \<and> (\<exists>evs. fst (test 9 example_impl 1 1 None False example_after_fit) =
          New_CallbackList [TestLogger] # evs)
   \<and> snd (test 9 example_impl 1 1 None False example_after_fit) \<noteq> None
   \<and> store (test_world (the (snd (test 9 example_impl 1 1 None False example_after_fit))))
         Test_default = [TestLogger]"
proof -
  have c: "compiled (agent example_after_fit)"
    by code_simp
  have s: "store example_after_fit Fit_default = [TrainEpisodeLogger]"
    by code_simp
  have t: "store example_after_fit Test_default = []"
    by code_simp
  have a: "fit_appended (Some 1) 1 True 10000 = [TrainEpisodeLogger, Visualizer]"
    by (simp add: fit_appended_def)
  have b: "test_appended False = [TestLogger]"
    by (simp add: test_appended_def)
  have f: "snd (fit 9 example_impl (Some 1) None 1 None 1 True 1000 0 10000 example_after_fit)
             \<noteq> None"
    by code_simp
  have g: "snd (test 9 example_impl 1 1 None False example_after_fit) \<noteq> None"
    by code_simp
  from default_callbacks_accumulate [OF c, where action_repetition = 1 and fuel = 9
      and fuel' = 9 and I = example_impl and nb_episodes = "Some 1" and nb_steps = None
      and verbose = 1 and visualize = True and validation_size = 1000
      and nb_max_random_start_steps = 0 and log_interval = 10000
      and test_nb_episodes = 1 and test_visualize = False]
  show ?thesis
    using c s t a b f g by auto
qed

section \<open>The pieces of one iteration of \<^verbatim>\<open>fit\<close>\<close>

lemma episode_begins_simps [simp]:
  "episode_begins [] = []"
  "episode_begins (xs @ ys) = episode_begins xs @ episode_begins ys"
  "episode_begins (On_episode_begin e # xs) = e # episode_begins xs"
  "inner_event ev \<Longrightarrow> episode_begins (ev # xs) = episode_begins xs"
  "episode_begins (On_episode_end e logs # xs) = episode_begins xs"
  by (cases ev; simp add: episode_begins_def List.map_filter_def)+

lemma episode_ends_simps [simp]:
  "episode_ends [] = []"
  "episode_ends (xs @ ys) = episode_ends xs @ episode_ends ys"
  "episode_ends (On_episode_end e logs # xs) = (e, logs) # episode_ends xs"
  "inner_event ev \<Longrightarrow> episode_ends (ev # xs) = episode_ends xs"
  "episode_ends (On_episode_begin e # xs) = episode_ends xs"
  by (cases ev; simp add: episode_ends_def List.map_filter_def)+

lemma episode_prologue [simp]:
  "episode_begins (New_CallbackList cs # xs) = episode_begins xs"
  "episode_begins (Set_model # xs) = episode_begins xs"
  "episode_begins (Set_params ps # xs) = episode_begins xs"
  "episode_begins (On_train_begin # xs) = episode_begins xs"
  "episode_begins (On_train_end # xs) = episode_begins xs"
  "episode_ends (New_CallbackList cs # xs) = episode_ends xs"
  "episode_ends (Set_model # xs) = episode_ends xs"
  "episode_ends (Set_params ps # xs) = episode_ends xs"
  "episode_ends (On_train_begin # xs) = episode_ends xs"
  "episode_ends (On_train_end # xs) = episode_ends xs"
  by (simp_all add: episode_begins_def episode_ends_def List.map_filter_def)

lemma inner_no_episode:
  "list_all inner_event evs \<Longrightarrow> episode_begins evs = [] \<and> episode_ends evs = []"
  by (induction evs) auto



lemma random_starts_inner:
  "list_all inner_event (fst (random_starts I n tot st))"
proof (induction n arbitrary: st)
  case 0
  show ?case by simp
next
  case (Suc n)
  obtain ob e s where st: "st = (ob, e, s)" by (cases st) auto
  obtain a s' where sa: "space_sample I s = (a, s')" by (cases "space_sample I s")
  obtain ob' r d e' where es: "env_step I a e = ((ob', r, d), e')" by (cases "env_step I a e") auto
  show ?case using Suc[of "(ob', e', s')"]
    by (auto simp: st sa es split: prod.splits)
qed

text \<open>
  With an environment that honours the contract, the loops hand on an observation;
  a repetition that does not end the episode has decreased the rank.
\<close>

lemma random_starts_obs:
  assumes "env_conforms I" and "ob \<noteq> None"
  shows "fst (snd (random_starts I n tot (ob, e, s))) \<noteq> None"
  using assms(2)
proof (induction n arbitrary: ob e s)
  case 0
  then show ?case by simp
next
  case (Suc n)
  obtain a s' where sa: "space_sample I s = (a, s')" by (cases "space_sample I s")
  obtain ob' r d e' where es: "env_step I a e = ((ob', r, d), e')" by (cases "env_step I a e") auto
  obtain ob2 e2 where er: "env_reset I e' = (ob2, e2)" by (cases "env_reset I e'")
  show ?case
  proof (cases d)
    case True
    with assms(1) er have "ob2 \<noteq> None" unfolding env_conforms_def by blast
    with True er show ?thesis by (simp add: sa es)
  next
    case False
    with assms(1) es have "ob' \<noteq> None" unfolding env_conforms_def by blast
    from Suc.IH[OF this, of e' s'] False show ?thesis
      by (auto simp: sa es split: prod.splits)
  qed
qed



lemma nb_random_start_steps_ok:
  "0 \<le> v \<Longrightarrow> \<exists>evs n s'. nb_random_start_steps I v s = (evs, Inr (n, s')) \<and> list_all inner_event evs"
  by (cases "np_randint I v s") (auto simp: nb_random_start_steps_def)

text \<open>
  What the start of an episode and a recorded step emit and leave, for an environment
  that honours the contract: no assertion fails.
\<close>

lemma start_episode_spec:
  assumes "env_conforms I" and "0 \<le> v"
  shows "\<exists>inner fr0. start_episode I v fr = (On_episode_begin (episode fr) # inner, Inr fr0)
           \<and> list_all inner_event inner
           \<and> observation fr0 \<noteq> None \<and> episode_reward fr0 = Some 0 \<and> episode_step fr0 = Some 0
           \<and> episode fr0 = episode fr \<and> step fr0 = step fr"
proof -
  obtain ob e where er: "env_reset I (env (world fr)) = (ob, e)"
    by (cases "env_reset I (env (world fr))")
  with assms(1) have ob: "ob \<noteq> None" unfolding env_conforms_def by blast
  let ?w1 = "(world fr)\<lparr>env := e, agent := reset_states I (agent (world fr))\<rparr>"
  obtain evs1 n s where nb: "nb_random_start_steps I v (rnd ?w1) = (evs1, Inr (n, s))"
    and i1: "list_all inner_event evs1"
    using nb_random_start_steps_ok[OF assms(2), of I "rnd ?w1"] by blast
  obtain evs2 ob' e' s' where rs: "random_starts I (nat n) n (ob, e, s) = (evs2, (ob', e', s'))"
    by (cases "random_starts I (nat n) n (ob, e, s)") auto
  from random_starts_inner[of I "nat n" n "(ob, e, s)"] rs have i2: "list_all inner_event evs2"
    by simp
  from random_starts_obs[OF assms(1) ob, of "nat n" n e s] rs have ob': "ob' \<noteq> None"
    by simp
  show ?thesis
    using er ob nb rs i1 i2 ob' by (simp add: start_episode_def Let_def)
qed





subsection \<open>Unfolding the loop and the call\<close>




lemma fit_unfold:
  assumes "compiled (agent w)" and "1 \<le> k"
  shows "fit fuel I nbe nbs k cbs verbose vis vs v li w =
           (case fit_loop fuel I nbe nbs k v (fit_frame0 (fit_prologue nbe nbs cbs verbose vis li w)) of
              (evs, Some (Inr fr)) \<Rightarrow>
                (fit_setup nbe nbs cbs verbose vis li w @ On_train_begin # evs @ [On_train_end],
                 Some (Inr fr))
            | (evs, out) \<Rightarrow> (fit_setup nbe nbs cbs verbose vis li w @ On_train_begin # evs, out))"
  using assms
  by (simp add: fit_def fit_frame0_def fit_prologue_def fit_setup_def Let_def
           split: prod.splits option.splits sum.splits)




section \<open>Episodes and termination\<close>















section \<open>Episodes of one step\<close>

lemma inner_not_episode_end:
  "list_all inner_event evs \<Longrightarrow> On_episode_end e logs \<notin> set evs"
  by (induction evs) auto

lemma first_step:
  assumes "first_step_done I" and "after_reset I e"
  shows "\<exists>ob r e'. env_step I a e = ((ob, r, True), e')"
proof -
  from assms(2) obtain e0 where "e = snd (env_reset I e0)" by (auto simp: after_reset_def)
  with assms(1) have "snd (snd (fst (env_step I a e)))" by (simp add: first_step_done_def)
  then show ?thesis by (cases "env_step I a e") auto
qed

lemma random_starts_after_reset:
  assumes "first_step_done I" and "after_reset I e"
  shows "after_reset I (fst (snd (snd (random_starts I n tot (ob, e, s)))))"
proof (cases n)
  case 0
  with assms(2) show ?thesis by simp
next
  case (Suc m)
  obtain a s' where sa: "space_sample I s = (a, s')" by (cases "space_sample I s")
  from first_step[OF assms, of a] obtain ob' r e' where es: "env_step I a e = ((ob', r, True), e')"
    by blast
  obtain ob2 e2 where er: "env_reset I e' = (ob2, e2)" by (cases "env_reset I e'")
  then have "after_reset I e2"
    by (auto simp: after_reset_def intro: exI[of _ e'])
  with er show ?thesis
    by (simp add: Suc sa es)
qed

lemma repeat_action_first_step:
  assumes "first_step_done I" and "after_reset I e" and "0 < n"
  shows "\<exists>ob' r e'. repeat_action I n a (ob, r0, d, e) = ([Env_step a ob' r True], (ob', r0 + r, True, e'))"
proof -
  from assms(3) obtain m where n: "n = Suc m" by (cases n) auto
  from first_step[OF assms(1,2), of a] obtain ob' r e' where es: "env_step I a e = ((ob', r, True), e')"
    by blast
  show ?thesis by (simp add: n es)
qed

lemma start_episode_after_reset:
  assumes "first_step_done I" and "start_episode I v fr = (evs, Inr fr0)"
  shows "after_reset I (env (world fr0))"
proof -
  obtain ob e where er: "env_reset I (env (world fr)) = (ob, e)"
    by (cases "env_reset I (env (world fr))")
  then have a: "after_reset I e"
    by (auto simp: after_reset_def intro: exI[of _ "env (world fr)"])
  let ?w1 = "(world fr)\<lparr>env := e, agent := reset_states I (agent (world fr))\<rparr>"
  obtain evs1 res where nb: "nb_random_start_steps I v (rnd ?w1) = (evs1, res)"
    by (cases "nb_random_start_steps I v (rnd ?w1)")
  from assms(2) er nb obtain n s where res: "res = Inr (n, s)" and ob: "ob \<noteq> None"
    by (cases res) (auto simp: start_episode_def Let_def split: if_splits)
  obtain evs2 ob' e' s' where rs: "random_starts I (nat n) n (ob, e, s) = (evs2, (ob', e', s'))"
    by (cases "random_starts I (nat n) n (ob, e, s)") auto
  from assms(2) er nb res ob rs have "env (world fr0) = e'"
    by (auto simp: start_episode_def Let_def)
  with random_starts_after_reset[OF assms(1) a, of "nat n" n ob s] rs show ?thesis by simp
qed

lemma fit_step_first_step:
  assumes "first_step_done I" and "1 \<le> k" and "after_reset I (env (world fr))"
    and "observation fr = Some ob0" and "episode_reward fr = Some er" and "episode_step fr = Some es"
  shows "\<exists>inner logs fr1.
           fit_step I k fr = (inner @ [On_episode_end (episode fr) logs], Inr fr1)
           \<and> list_all inner_event inner
           \<and> observation fr1 = None \<and> episode fr1 = episode fr + 1 \<and> step fr1 = step fr + 1
           \<and> map_of logs ''nb_episode_steps'' = Some (PyInt (es + 1))
           \<and> map_of logs ''nb_steps'' = Some (PyInt (step fr + 1))"
proof -
  obtain action ag1 where fw: "forward I (Some ob0) (agent (world fr)) = (action, ag1)"
    by (cases "forward I (Some ob0) (agent (world fr))")
  from assms(2) have "0 < nat k" by simp
  from repeat_action_first_step[OF assms(1,3) this, of action "Some ob0" 0 False]
  obtain ob' r e'
    where ra: "repeat_action I (nat k) action (Some ob0, 0, False, env (world fr))
                 = ([Env_step action ob' r True], (ob', 0 + r, True, e'))"
    by blast
  obtain metrics ag2 where bw: "backward I (0 + r) True ag1 = (metrics, ag2)"
    by (cases "backward I (0 + r) True ag1")
  show ?thesis
    using assms(4-6) fw ra bw
    by (intro exI[of _ "[On_step_begin es, Forward (Some ob0) action, Env_step action ob' r True,
                         Backward (0 + r) True metrics, On_step_end es (Some _)]"])
       (simp add: fit_step_def Let_def)
qed

lemma fit_body_first_step:
  assumes "first_step_done I" and "env_conforms I" and "1 \<le> k" and "0 \<le> v"
    and "observation fr = None"
  shows "\<exists>inner logs fr1.
           fit_body I k v fr
             = (On_episode_begin (episode fr) # inner @ [On_episode_end (episode fr) logs], Inr fr1)
           \<and> list_all inner_event inner
           \<and> observation fr1 = None \<and> episode fr1 = episode fr + 1 \<and> step fr1 = step fr + 1
           \<and> map_of logs ''nb_episode_steps'' = Some (PyInt 1)
           \<and> map_of logs ''nb_steps'' = Some (PyInt (step fr + 1))"
proof -
  from start_episode_spec[OF assms(2,4), of fr] obtain inner0 fr0
    where s: "start_episode I v fr = (On_episode_begin (episode fr) # inner0, Inr fr0)"
      and i0: "list_all inner_event inner0"
      and f0: "observation fr0 \<noteq> None" "episode_reward fr0 = Some 0" "episode_step fr0 = Some 0"
              "episode fr0 = episode fr" "step fr0 = step fr"
    by blast
  from f0(1) obtain ob0 where o0: "observation fr0 = Some ob0" by auto
  from fit_step_first_step[OF assms(1,3) start_episode_after_reset[OF assms(1) s] o0 f0(2,3),
                           unfolded f0(4,5)]
  obtain inner1 logs fr1
    where t: "fit_step I k fr0 = (inner1 @ [On_episode_end (episode fr) logs], Inr fr1)"
      and i1: "list_all inner_event inner1"
      and f1: "observation fr1 = None" "episode fr1 = episode fr + 1" "step fr1 = step fr + 1"
              "map_of logs ''nb_episode_steps'' = Some (PyInt (0 + 1))"
              "map_of logs ''nb_steps'' = Some (PyInt (step fr + 1))"
    by blast
  show ?thesis
    using assms(5) s t i0 i1 f1
    by (intro exI[of _ "inner0 @ inner1"] exI[of _ logs] exI[of _ fr1])
       (simp add: fit_body_def)
qed

lemma fit_loop_first_step:
  assumes "first_step_done I" and "env_conforms I" and "1 \<le> k" and "0 \<le> v"
  shows "observation fr = None \<Longrightarrow> step fr = episode fr
     \<Longrightarrow> On_episode_end e logs \<in> set (fst (fit_loop fuel I nbe nbs k v fr))
     \<Longrightarrow> map_of logs ''nb_episode_steps'' = Some (PyInt 1)
       \<and> map_of logs ''nb_steps'' = Some (PyInt (e + 1))"
proof (induction fuel arbitrary: fr)
  case 0
  then show ?case by (simp split: if_splits)
next
  case (Suc fuel)
  show ?case
  proof (cases "fit_cond nbe nbs fr")
    case False
    with Suc.prems show ?thesis by simp
  next
    case True
    from fit_body_first_step[OF assms Suc.prems(1)] obtain inner logs1 fr1
      where b: "fit_body I k v fr
                  = (On_episode_begin (episode fr) # inner @ [On_episode_end (episode fr) logs1],
                     Inr fr1)"
        and i: "list_all inner_event inner"
        and f1: "observation fr1 = None" "episode fr1 = episode fr + 1" "step fr1 = step fr + 1"
        and l1: "map_of logs1 ''nb_episode_steps'' = Some (PyInt 1)"
                "map_of logs1 ''nb_steps'' = Some (PyInt (step fr + 1))"
      by blast
    from Suc.prems(3) True b
    have "On_episode_end e logs \<in> set inner
            \<or> (e = episode fr \<and> logs = logs1)
            \<or> On_episode_end e logs \<in> set (fst (fit_loop fuel I nbe nbs k v fr1))"
      by (auto split: prod.splits)
    with inner_not_episode_end[OF i, of e logs]
    consider "e = episode fr" "logs = logs1"
      | "On_episode_end e logs \<in> set (fst (fit_loop fuel I nbe nbs k v fr1))"
      by blast
    then show ?thesis
    proof cases
      case 1
      with l1 Suc.prems(2) show ?thesis by simp
    next
      case 2
      from Suc.IH[OF f1(1) _ 2] f1 Suc.prems(2) show ?thesis by simp
    qed
  qed
qed

lemma test_steps_first_step:
  assumes "first_step_done I" and "1 \<le> k" and "after_reset I (env w)"
  shows "\<exists>inner ob' er' w'.
           test_steps (Suc fuel) I k (ob, er, es, w) = (inner, Some (ob', er', es + 1, w'))
           \<and> list_all inner_event inner"
proof -
  obtain action ag1 where fw: "forward I ob (agent w) = (action, ag1)"
    by (cases "forward I ob (agent w)")
  from assms(2) have "0 < nat k" by simp
  from repeat_action_first_step[OF assms(1,3) this, of action ob 0 False]
  obtain ob' r e'
    where ra: "repeat_action I (nat k) action (ob, 0, False, env w)
                 = ([Env_step action ob' r True], (ob', 0 + r, True, e'))"
    by blast
  obtain metrics ag2 where bw: "backward I (0 + r) True ag1 = (metrics, ag2)"
    by (cases "backward I (0 + r) True ag1")
  show ?thesis
    using fw ra bw by (simp add: Let_def)
qed

lemma test_episode_first_step:
  assumes "first_step_done I" and "env_conforms I" and "1 \<le> k"
  shows "\<exists>inner logs w'.
           test_episode (Suc fuel) I k ep w
             = (On_episode_begin ep # inner @ [On_episode_end ep logs], Some (Inr w'))
           \<and> list_all inner_event inner
           \<and> map_of logs ''nb_steps'' = Some (PyInt 1)
           \<and> map_of logs ''nb_episode_steps'' = None"
proof -
  obtain ob e where er: "env_reset I (env w) = (ob, e)"
    by (cases "env_reset I (env w)")
  with assms(2) have ob: "ob \<noteq> None" unfolding env_conforms_def by blast
  let ?w1 = "w\<lparr>env := e, agent := reset_states I (agent w)\<rparr>"
  from er have "after_reset I (env ?w1)"
    by (auto simp: after_reset_def intro: exI[of _ "env w"])
  from test_steps_first_step[OF assms(1,3) this, of fuel ob 0 0] obtain inner ob' er' w'
    where t: "test_steps (Suc fuel) I k (ob, 0, 0, ?w1) = (inner, Some (ob', er', 0 + 1, w'))"
      and i: "list_all inner_event inner"
    by blast
  show ?thesis
    using er ob t i
    by (intro exI[of _ "Reset_states # Env_reset ob # inner"]
          exI[of _ "[(''episode_reward'', PyFloat er'), (''nb_steps'', PyInt (0 + 1))]"]
          exI[of _ w'])
       (simp add: test_episode_def Let_def del: test_steps.simps)
qed

lemma test_episodes_first_step:
  assumes "first_step_done I" and "env_conforms I" and "1 \<le> k"
  shows "\<exists>tr w'. test_episodes (Suc fuel) I k eps w = (tr, Some (Inr w'))
           \<and> map fst (episode_ends tr) = eps
           \<and> (\<forall>e logs. On_episode_end e logs \<in> set tr \<longrightarrow>
                 map_of logs ''nb_steps'' = Some (PyInt 1)
                 \<and> map_of logs ''nb_episode_steps'' = None)"
proof (induction eps arbitrary: w)
  case Nil
  show ?case by simp
next
  case (Cons ep eps)
  from test_episode_first_step[OF assms, of fuel ep w] obtain inner logs w1
    where t: "test_episode (Suc fuel) I k ep w
                = (On_episode_begin ep # inner @ [On_episode_end ep logs], Some (Inr w1))"
      and i: "list_all inner_event inner"
      and l: "map_of logs ''nb_steps'' = Some (PyInt 1)" "map_of logs ''nb_episode_steps'' = None"
    by blast
  from Cons.IH[of w1] obtain tr w'
    where r: "test_episodes (Suc fuel) I k eps w1 = (tr, Some (Inr w'))"
      and e: "map fst (episode_ends tr) = eps"
      and a: "\<forall>e logs. On_episode_end e logs \<in> set tr \<longrightarrow>
                 map_of logs ''nb_steps'' = Some (PyInt 1)
                 \<and> map_of logs ''nb_episode_steps'' = None"
    by blast
  show ?case
    using t r e a l inner_no_episode[OF i] inner_not_episode_end[OF i]
    by (intro exI[of _ "On_episode_begin ep # inner @ [On_episode_end ep logs] @ tr"]
          exI[of _ w']) auto
qed

lemma fit_trace:
  assumes "compiled (agent w)" and "1 \<le> k"
  shows "\<exists>tail. fst (fit fuel I nbe nbs k cbs verbose vis vs v li w)
            = fit_setup nbe nbs cbs verbose vis li w @ On_train_begin
                # fst (fit_loop fuel I nbe nbs k v (fit_frame0 (fit_prologue nbe nbs cbs verbose vis li w)))
                @ tail
          \<and> (tail = [] \<or> tail = [On_train_end])"
  by (auto simp: fit_unfold[OF assms] split: prod.splits option.splits sum.splits)

text \<open>
  C5, as the code has it. Let the environment honour the contract and return
  \<^verbatim>\<open>done\<close> on the very first step after a reset, the agent be compiled and
  \<^verbatim>\<open>action_repetition \<ge> 1\<close>. Then \<^verbatim>\<open>test\<close> returns (one iteration of its \<^verbatim>\<open>while\<close>
  loop per episode suffices), it reports every episode, and every episode log it
  passes to \<^verbatim>\<open>on_episode_end\<close> has \<^verbatim>\<open>nb_steps = 1\<close> and no key
  \<^verbatim>\<open>nb_episode_steps\<close>: in \<^verbatim>\<open>test\<close> the number of steps of the episode is logged
  under the name \<^verbatim>\<open>nb_steps\<close> (line 154). In \<^verbatim>\<open>fit\<close> every episode log has
  \<^verbatim>\<open>nb_episode_steps = 1\<close>, and \<^verbatim>\<open>nb_steps\<close>, the global step count, is the episode
  index plus one: each episode has incremented it exactly once.
\<close>

theorem first_step_done_logs:
  fixes I :: "('e, 'g, 's, 'o, 'a, 'r::{plus,zero}, 'm) impl"
  assumes "compiled (agent w)" and "1 \<le> action_repetition"
    and "env_conforms I" and "first_step_done I"
  shows "(\<forall>fuel \<ge> 1. \<exists>tr w'.
            test fuel I test_nb_episodes action_repetition test_callbacks test_visualize w
              = (tr, Some (Inr w'))
            \<and> map fst (episode_ends tr) = [0 .. test_nb_episodes - 1]
            \<and> (\<forall>e logs. On_episode_end e logs \<in> set tr \<longrightarrow>
                  map_of logs ''nb_steps'' = Some (PyInt 1)
                  \<and> map_of logs ''nb_episode_steps'' = None))
       \<and> (0 \<le> nb_max_random_start_steps \<longrightarrow>
            (\<forall>fuel e logs.
               On_episode_end e logs
                 \<in> set (fst (fit fuel I nb_episodes nb_steps action_repetition callbacks verbose
                               visualize validation_size nb_max_random_start_steps log_interval w))
               \<longrightarrow> map_of logs ''nb_episode_steps'' = Some (PyInt 1)
                 \<and> map_of logs ''nb_steps'' = Some (PyInt (e + 1))))"
proof (intro conjI allI impI)
  fix fuel :: nat
  assume "1 \<le> fuel"
  then obtain m where m: "fuel = Suc m" by (cases fuel) auto
  let ?w2 = "list_extend (case test_callbacks of None \<Rightarrow> Test_default | Some n \<Rightarrow> Caller_list n)
               [TestLogger] (w\<lparr>agent := (agent w)\<lparr>training := False\<rparr>\<rparr>)"
  let ?w3 = "if test_visualize
             then list_extend (case test_callbacks of None \<Rightarrow> Test_default | Some n \<Rightarrow> Caller_list n)
                    [Visualizer] ?w2
             else ?w2"
  from test_episodes_first_step[OF assms(4,3,2), of m "[0 .. test_nb_episodes - 1]" ?w3]
  obtain tr w'
    where t: "test_episodes (Suc m) I action_repetition [0 .. test_nb_episodes - 1] ?w3
                = (tr, Some (Inr w'))"
      and e: "map fst (episode_ends tr) = [0 .. test_nb_episodes - 1]"
      and a: "\<forall>e logs. On_episode_end e logs \<in> set tr \<longrightarrow>
                 map_of logs ''nb_steps'' = Some (PyInt 1)
                 \<and> map_of logs ''nb_episode_steps'' = None"
    by blast
  show "\<exists>tr w'.
            test fuel I test_nb_episodes action_repetition test_callbacks test_visualize w
              = (tr, Some (Inr w'))
            \<and> map fst (episode_ends tr) = [0 .. test_nb_episodes - 1]
            \<and> (\<forall>e logs. On_episode_end e logs \<in> set tr \<longrightarrow>
                  map_of logs ''nb_steps'' = Some (PyInt 1)
                  \<and> map_of logs ''nb_episode_steps'' = None)"
    using assms(1,2) t e a
    by (intro exI[of _ "[New_CallbackList _, Set_model, Set_params _] @ tr"] exI[of _ w'])
       (auto simp: test_def Let_def m simp del: test_episodes.simps)
next
  fix fuel e logs
  assume v: "0 \<le> nb_max_random_start_steps"
    and m: "On_episode_end e logs
              \<in> set (fst (fit fuel I nb_episodes nb_steps action_repetition callbacks verbose
                            visualize validation_size nb_max_random_start_steps log_interval w))"
  let ?fr0 = "fit_frame0 (fit_prologue nb_episodes nb_steps callbacks verbose visualize
                log_interval w) :: ('e, 'g, 's, 'o, 'r) frame"
  from fit_trace[OF assms(1,2), of fuel I nb_episodes nb_steps callbacks verbose visualize
                   validation_size nb_max_random_start_steps log_interval] m
  have "On_episode_end e logs
          \<in> set (fst (fit_loop fuel I nb_episodes nb_steps action_repetition
                        nb_max_random_start_steps ?fr0))"
    by (auto simp: fit_setup_def)
  from fit_loop_first_step[OF assms(4,3,2) v _ _ this]
  show "map_of logs ''nb_episode_steps'' = Some (PyInt 1)"
    and "map_of logs ''nb_steps'' = Some (PyInt (e + 1))"
    by (simp_all add: fit_frame0_def)
qed

theorem first_step_done_logs_witness:
  "compiled (agent example_world) \<and> (1::int) \<le> 1
   \<and> env_conforms example_one_step_impl \<and> first_step_done example_one_step_impl
   \<and> (1::nat) \<le> 9 \<and> (0::int) \<le> 2
   \<and> (\<exists>tr w'. test 9 example_one_step_impl 3 1 None False example_world = (tr, Some (Inr w'))
         \<and> map fst (episode_ends tr) = [0 .. 3 - 1]
         \<and> (\<forall>e logs. On_episode_end e logs \<in> set tr \<longrightarrow>
               map_of logs ''nb_steps'' = Some (PyInt 1)
               \<and> map_of logs ''nb_episode_steps'' = None))
   \<and> On_episode_end 2 [(''episode_reward'', PyFloat 1), (''nb_episode_steps'', PyInt 1),
                        (''nb_steps'', PyInt 3)]
       \<in> set (fst (fit 9 example_one_step_impl (Some 3) None 1 None 1 False 1000 2 10000
                     example_world))
   \<and> map_of [(''episode_reward'', PyFloat (1::int)), (''nb_episode_steps'', PyInt 1),
              (''nb_steps'', PyInt 3)] ''nb_steps''
       = Some (PyInt (2 + 1) :: (nat, nat, int, nat) pyval)"
proof -
  have c: "compiled (agent example_world)"
    by (simp add: example_world_def)
  have e: "env_conforms example_one_step_impl"
    by (simp add: env_conforms_def example_one_step_impl_def example_impl_def)
  have f: "first_step_done example_one_step_impl"
    by (simp add: first_step_done_def example_one_step_impl_def)
  have n: "(1::int) \<le> 1"
    by simp
  have m: "On_episode_end 2 [(''episode_reward'', PyFloat 1), (''nb_episode_steps'', PyInt 1),
                             (''nb_steps'', PyInt 3)]
       \<in> set (fst (fit 9 example_one_step_impl (Some 3) None 1 None 1 False 1000 2 10000
                     example_world))"
    by code_simp
  note t = first_step_done_logs [OF c n e f, where test_nb_episodes = 3 and test_callbacks = None
      and test_visualize = False and nb_max_random_start_steps = 2 and nb_episodes = "Some 3"
      and nb_steps = None and callbacks = None and verbose = 1 and visualize = False
      and validation_size = 1000 and log_interval = 10000]
  from t [THEN conjunct1, rule_format, of 9]
  have a: "\<exists>tr w'. test 9 example_one_step_impl 3 1 None False example_world = (tr, Some (Inr w'))
         \<and> map fst (episode_ends tr) = [0 .. 3 - 1]
         \<and> (\<forall>e logs. On_episode_end e logs \<in> set tr \<longrightarrow>
               map_of logs ''nb_steps'' = Some (PyInt 1)
               \<and> map_of logs ''nb_episode_steps'' = None)"
    by simp
  from t [THEN conjunct2, rule_format, OF _ m]
  have b: "map_of [(''episode_reward'', PyFloat (1::int)), (''nb_episode_steps'', PyInt 1),
              (''nb_steps'', PyInt 3)] ''nb_steps''
       = Some (PyInt (2 + 1) :: (nat, nat, int, nat) pyval)"
    by simp
  show ?thesis
    using c e f m a b by (intro conjI) simp_all
qed

text \<open>
  The claim as stated fails on the name of the key: the log \<^verbatim>\<open>test\<close> passes for an
  episode of one step has no \<^verbatim>\<open>nb_episode_steps\<close>.
\<close>

theorem test_log_key_counterexample:
  "first_step_done example_one_step_impl
   \<and> episode_ends (fst (test 9 example_one_step_impl 1 1 None False example_world))
       = [(0, [(''episode_reward'', PyFloat 1), (''nb_steps'', PyInt 1)])]
   \<and> map_of [(''episode_reward'', PyFloat (1::int)), (''nb_steps'', PyInt 1)] ''nb_episode_steps''
       \<noteq> Some (PyInt 1 :: (nat, nat, int, nat) pyval)"
proof (intro conjI)
  show "first_step_done example_one_step_impl"
    by (simp add: first_step_done_def example_one_step_impl_def)
  show "episode_ends (fst (test 9 example_one_step_impl 1 1 None False example_world))
       = [(0, [(''episode_reward'', PyFloat 1), (''nb_steps'', PyInt 1)])]"
    by code_simp
  show "map_of [(''episode_reward'', PyFloat (1::int)), (''nb_steps'', PyInt 1)] ''nb_episode_steps''
       \<noteq> Some (PyInt 1 :: (nat, nat, int, nat) pyval)"
    by simp
qed

section \<open>Action repetition\<close>

lemma repeat_action_shape:
  "repeat_action I n a (ob, r0, d0, e) = (evs, (ob', r', d', e')) \<Longrightarrow>
   \<exists>rs. evs = map (step_event a) rs
     \<and> r' = foldl (+) r0 (map step_reward rs)
     \<and> (0 < n \<longrightarrow> repetition_ok n rs \<and> d' = step_done (last rs))
     \<and> (n = 0 \<longrightarrow> rs = [])"
proof (induction n arbitrary: ob r0 d0 e evs)
  case 0
  then show ?case by simp
next
  case (Suc n)
  obtain ob1 r1 d1 e1 where es: "env_step I a e = ((ob1, r1, d1), e1)"
    by (cases "env_step I a e") auto
  show ?case
  proof (cases d1)
    case True
    with Suc.prems es show ?thesis
      by (intro exI[of _ "[(ob1, r1, d1)]"]) (auto simp: repetition_ok_def)
  next
    case False
    with Suc.prems es obtain evs1
      where rec: "repeat_action I n a (ob1, r0 + r1, d1, e1) = (evs1, (ob', r', d', e'))"
        and evs: "evs = Env_step a ob1 r1 d1 # evs1"
      by (auto split: prod.splits)
    from Suc.IH[OF rec] obtain rs
      where ev: "evs1 = map (step_event a) rs"
        and rw: "r' = foldl (+) (r0 + r1) (map step_reward rs)"
        and pos: "0 < n \<longrightarrow> repetition_ok n rs \<and> d' = step_done (last rs)"
        and zero: "n = 0 \<longrightarrow> rs = []"
      by blast
    have ok: "repetition_ok (Suc n) ((ob1, r1, d1) # rs)"
    proof (cases "n = 0")
      case True
      with zero show ?thesis by (simp add: repetition_ok_def)
    next
      case n: False
      with pos have r: "repetition_ok n rs" by simp
      show ?thesis
        unfolding repetition_ok_def
      proof (intro conjI allI impI)
        show "(ob1, r1, d1) # rs \<noteq> []" by simp
        from r show "length ((ob1, r1, d1) # rs) \<le> Suc n" by (simp add: repetition_ok_def)
        show "\<not> step_done (((ob1, r1, d1) # rs) ! i)" if "Suc i < length ((ob1, r1, d1) # rs)" for i
          using that r False by (cases i) (auto simp: repetition_ok_def)
        show "step_done (last ((ob1, r1, d1) # rs))" if "length ((ob1, r1, d1) # rs) < Suc n"
          using that r by (auto simp: repetition_ok_def)
      qed
    qed
    have dn: "d' = step_done (last ((ob1, r1, d1) # rs))"
    proof (cases "n = 0")
      case True
      with zero rec show ?thesis by simp
    next
      case n: False
      with pos have "rs \<noteq> []" by (simp add: repetition_ok_def)
      with pos n show ?thesis by simp
    qed
    show ?thesis
      using evs ev rw ok dn
      by (intro exI[of _ "(ob1, r1, d1) # rs"]) simp
  qed
qed

lemma forward_blocks_none:
  "list_all (\<lambda>ev. \<not> is_forward ev) tr \<Longrightarrow> forward_blocks k tr"
  unfolding forward_blocks_def
proof (intro allI impI)
  fix pre ob a rest
  assume "list_all (\<lambda>ev. \<not> is_forward ev) tr" and "tr = pre @ Forward ob a # rest"
  then have False by simp
  then show "\<exists>rs m rest'.
           rest = map (step_event a) rs
                    @ Backward (foldl (+) 0 (map step_reward rs)) (step_done (last rs)) m # rest'
           \<and> repetition_ok (nat k) rs" ..
qed

lemma forward_blocks_append:
  assumes "forward_blocks k xs" and "forward_blocks k ys"
  shows "forward_blocks k (xs @ ys)"
  unfolding forward_blocks_def
proof (intro allI impI)
  fix pre ob a rest
  assume "xs @ ys = pre @ Forward ob a # rest"
  then consider us where "xs = pre @ Forward ob a # us" "rest = us @ ys"
    | us where "pre = xs @ us" "ys = us @ Forward ob a # rest"
    by (auto simp: append_eq_append_conv2 append_eq_Cons_conv)
  then show "\<exists>rs m rest'.
           rest = map (step_event a) rs
                    @ Backward (foldl (+) 0 (map step_reward rs)) (step_done (last rs)) m # rest'
           \<and> repetition_ok (nat k) rs"
  proof cases
    case 1
    from assms(1) 1(1) obtain rs m rest'
      where "us = map (step_event a) rs
                    @ Backward (foldl (+) 0 (map step_reward rs)) (step_done (last rs)) m # rest'"
        and "repetition_ok (nat k) rs"
      unfolding forward_blocks_def by blast
    with 1(2) show ?thesis by (intro exI[of _ rs] exI[of _ m] exI[of _ "rest' @ ys"]) simp
  next
    case 2
    with assms(2) show ?thesis unfolding forward_blocks_def by blast
  qed
qed

lemma step_events_not_forward:
  "list_all (\<lambda>ev. \<not> is_forward ev) (map (step_event a) rs)"
  by (induction rs) auto

lemma forward_blocks_block:
  assumes "repetition_ok (nat k) rs" and "list_all (\<lambda>ev. \<not> is_forward ev) tail"
  shows "forward_blocks k
           (Forward ob a # map (step_event a) rs
              @ Backward (foldl (+) 0 (map step_reward rs)) (step_done (last rs)) m # tail)"
  unfolding forward_blocks_def
proof (intro allI impI)
  fix pre ob' a' rest
  let ?b = "map (step_event a) rs
              @ Backward (foldl (+) 0 (map step_reward rs)) (step_done (last rs)) m # tail"
  assume d: "Forward ob a # ?b = pre @ Forward ob' a' # rest"
  have nf: "list_all (\<lambda>ev. \<not> is_forward ev) ?b"
    using assms(2) step_events_not_forward[of a rs] by simp
  have "pre = []"
  proof (cases pre)
    case Nil
    then show ?thesis .
  next
    case (Cons p pre')
    with d have "?b = pre' @ Forward ob' a' # rest" by simp
    with nf have False by (simp del: append_Cons)
    then show ?thesis ..
  qed
  with d have "ob' = ob" "a' = a" "rest = ?b" by auto
  with assms(1) show "\<exists>rs m rest'.
           rest = map (step_event a') rs
                    @ Backward (foldl (+) 0 (map step_reward rs)) (step_done (last rs)) m # rest'
           \<and> repetition_ok (nat k) rs"
    by blast
qed

lemma test_unfold:
  assumes "compiled (agent w)" and "1 \<le> k"
  shows "test fuel I n k cbs vis w =
           (case test_episodes fuel I k [0 .. n - 1] (test_prologue cbs vis w) of
              (evs, out) \<Rightarrow> (test_setup n cbs vis w @ evs, out))"
  using assms by (simp add: test_def test_prologue_def test_setup_def Let_def)

lemma fit_body_running:
  "observation fr \<noteq> None \<Longrightarrow> fit_body I k v fr = fit_step I k fr"
  by (simp only: fit_body_def if_False)

lemma start_event_not_forward:
  "list_all start_event evs \<Longrightarrow> list_all (\<lambda>ev. \<not> is_forward ev) evs"
  by (induction evs) (auto elim: start_event.elims)

lemma random_starts_start_events:
  "list_all start_event (fst (random_starts I n tot st))"
proof (induction n arbitrary: st)
  case 0
  show ?case by simp
next
  case (Suc n)
  obtain ob e s where st: "st = (ob, e, s)" by (cases st) auto
  obtain a s' where sa: "space_sample I s = (a, s')" by (cases "space_sample I s")
  obtain ob' r d e' where es: "env_step I a e = ((ob', r, d), e')"
    by (cases "env_step I a e") auto
  show ?case using Suc[of "(ob', e', s')"]
    by (auto simp: st sa es split: prod.splits)
qed

lemma start_episode_events:
  assumes "start_episode I v fr = (evs, out)"
  shows "\<exists>warm. evs = On_episode_begin (episode fr) # warm \<and> list_all start_event warm"
proof -
  obtain ob e where er: "env_reset I (env (world fr)) = (ob, e)"
    by (cases "env_reset I (env (world fr))")
  let ?w1 = "(world fr)\<lparr>env := e, agent := reset_states I (agent (world fr))\<rparr>"
  obtain evs1 res where nb: "nb_random_start_steps I v (rnd ?w1) = (evs1, res)"
    by (cases "nb_random_start_steps I v (rnd ?w1)")
  then have i1: "list_all start_event evs1"
    by (auto simp: nb_random_start_steps_def split: if_splits prod.splits)
  show ?thesis
  proof (cases res)
    case (Inl err)
    with assms er nb i1 show ?thesis
      by (auto simp: start_episode_def Let_def split: if_splits)
  next
    case (Inr ns)
    obtain n s where ns: "ns = (n, s)" by (cases ns)
    obtain evs2 st' where rs: "random_starts I (nat n) n (ob, e, s) = (evs2, st')"
      by (cases "random_starts I (nat n) n (ob, e, s)")
    from random_starts_start_events[of I "nat n" n "(ob, e, s)"] rs
    have i2: "list_all start_event evs2" by simp
    from assms er nb Inr ns rs i1 i2 show ?thesis
      by (auto simp: start_episode_def Let_def split: if_splits prod.splits)
  qed
qed

lemma fit_step_events:
  assumes "1 \<le> k" and "fit_step I k fr = (evs, out)"
  shows "evs = []
       \<or> (\<exists>es ob0 a rs m slogs tail.
             evs = On_step_begin es # Forward (Some ob0) a # map (step_event a) rs
                     @ Backward (foldl (+) 0 (map step_reward rs)) (step_done (last rs)) m
                     # On_step_end es slogs # tail
             \<and> repetition_ok (nat k) rs
             \<and> (tail = [] \<or> (\<exists>logs. tail = [On_episode_end (episode fr) logs])))"
proof (cases "\<exists>er es ob0. episode_reward fr = Some er \<and> episode_step fr = Some es
                 \<and> observation fr = Some ob0")
  case False
  with assms(2) have "evs = []"
    by (auto simp: fit_step_def split: option.splits)
  then show ?thesis ..
next
  case True
  then obtain er es ob0
    where f: "episode_reward fr = Some er" "episode_step fr = Some es" "observation fr = Some ob0"
    by blast
  obtain action ag1 where fw: "forward I (Some ob0) (agent (world fr)) = (action, ag1)"
    by (cases "forward I (Some ob0) (agent (world fr))")
  obtain evs1 ob reward d e1
    where ra: "repeat_action I (nat k) action (Some ob0, 0, False, env (world fr))
                 = (evs1, (ob, reward, d, e1))"
    by (cases "repeat_action I (nat k) action (Some ob0, 0, False, env (world fr))") auto
  obtain metrics ag2 where bw: "backward I reward d ag1 = (metrics, ag2)"
    by (cases "backward I reward d ag1")
  from assms(1) have "0 < nat k" by simp
  with repeat_action_shape[OF ra] obtain rs
    where s: "evs1 = map (step_event action) rs" "reward = foldl (+) 0 (map step_reward rs)"
             "repetition_ok (nat k) rs" "d = step_done (last rs)"
    by blast
  have "\<exists>slogs tail.
          evs = On_step_begin es # Forward (Some ob0) action # map (step_event action) rs
                  @ Backward (foldl (+) 0 (map step_reward rs)) (step_done (last rs)) metrics
                  # On_step_end es slogs # tail
          \<and> (tail = [] \<or> (\<exists>logs. tail = [On_episode_end (episode fr) logs]))"
    using assms(2) f fw ra bw s(1,2,4)
    by (cases d) (auto simp: fit_step_def Let_def)
  with s(3) show ?thesis by blast
qed

lemma fit_step_forward_blocks:
  assumes "1 \<le> k"
  shows "forward_blocks k (fst (fit_step I k fr))"
proof -
  obtain evs out where f: "fit_step I k fr = (evs, out)" by (cases "fit_step I k fr")
  from fit_step_events[OF assms f] consider "evs = []"
    | es ob0 a rs m slogs tail
    where "evs = On_step_begin es # Forward (Some ob0) a # map (step_event a) rs
                   @ Backward (foldl (+) 0 (map step_reward rs)) (step_done (last rs)) m
                   # On_step_end es slogs # tail"
      and "repetition_ok (nat k) rs"
      and "tail = [] \<or> (\<exists>logs. tail = [On_episode_end (episode fr) logs])"
    by blast
  then have "forward_blocks k evs"
  proof cases
    case 1
    then show ?thesis by (simp add: forward_blocks_none)
  next
    case 2
    from 2(3) have "list_all (\<lambda>ev. \<not> is_forward ev) (On_step_end es slogs # tail)" by auto
    from forward_blocks_block[OF 2(2) this]
    have "forward_blocks k (Forward (Some ob0) a # map (step_event a) rs
                   @ Backward (foldl (+) 0 (map step_reward rs)) (step_done (last rs)) m
                   # On_step_end es slogs # tail)" .
    with forward_blocks_append[OF forward_blocks_none[of "[On_step_begin es]" k] this] 2(1)
    show ?thesis by simp
  qed
  with f show ?thesis by simp
qed

lemma fit_body_forward_blocks:
  assumes "1 \<le> k"
  shows "forward_blocks k (fst (fit_body I k v fr))"
proof (cases "observation fr = None")
  case False
  from fit_step_forward_blocks[OF assms, of I fr] show ?thesis
    unfolding fit_body_running[OF False] .
next
  case True
  obtain evs out where s: "start_episode I v fr = (evs, out)"
    by (cases "start_episode I v fr")
  from start_episode_events[OF s] start_event_not_forward
  have "list_all (\<lambda>ev. \<not> is_forward ev) evs" by auto
  then have b: "forward_blocks k evs" by (rule forward_blocks_none)
  show ?thesis
  proof (cases out)
    case (Inl err)
    with True s b show ?thesis by (simp add: fit_body_def)
  next
    case (Inr fr1)
    with True s have "fst (fit_body I k v fr) = evs @ fst (fit_step I k fr1)"
      by (simp add: fit_body_def split: prod.splits)
    with forward_blocks_append[OF b fit_step_forward_blocks[OF assms, of I fr1]]
    show ?thesis by simp
  qed
qed

lemma fit_loop_forward_blocks:
  assumes "1 \<le> k"
  shows "forward_blocks k (fst (fit_loop fuel I nbe nbs k v fr))"
proof (induction fuel arbitrary: fr)
  case 0
  show ?case by (simp add: forward_blocks_none)
next
  case (Suc fuel)
  show ?case
  proof (cases "fit_cond nbe nbs fr")
    case False
    then show ?thesis by (simp add: forward_blocks_none)
  next
    case True
    obtain evs1 out1 where b: "fit_body I k v fr = (evs1, out1)"
      by (cases "fit_body I k v fr")
    from fit_body_forward_blocks[OF assms, of I v fr] b have f1: "forward_blocks k evs1" by simp
    show ?thesis
    proof (cases out1)
      case (Inl err)
      with True b f1 show ?thesis by simp
    next
      case (Inr fr1)
      with True b have "fst (fit_loop (Suc fuel) I nbe nbs k v fr)
                          = evs1 @ fst (fit_loop fuel I nbe nbs k v fr1)"
        by (simp split: prod.splits)
      with forward_blocks_append[OF f1 Suc.IH[of fr1]] show ?thesis by simp
    qed
  qed
qed

lemma test_steps_forward_blocks:
  assumes "1 \<le> k"
  shows "forward_blocks k (fst (test_steps fuel I k st))"
proof (induction fuel arbitrary: st)
  case 0
  show ?case by (simp add: forward_blocks_none)
next
  case (Suc fuel)
  obtain ob0 er es w where st: "st = (ob0, er, es, w)" by (cases st) auto
  obtain action ag1 where fw: "forward I ob0 (agent w) = (action, ag1)"
    by (cases "forward I ob0 (agent w)")
  obtain evs1 ob reward d e1
    where ra: "repeat_action I (nat k) action (ob0, 0, False, env w) = (evs1, (ob, reward, d, e1))"
    by (cases "repeat_action I (nat k) action (ob0, 0, False, env w)") auto
  obtain metrics ag2 where bw: "backward I reward d ag1 = (metrics, ag2)"
    by (cases "backward I reward d ag1")
  from assms have "0 < nat k" by simp
  with repeat_action_shape[OF ra] obtain rs
    where s: "evs1 = map (step_event action) rs" "reward = foldl (+) 0 (map step_reward rs)"
             "repetition_ok (nat k) rs" "d = step_done (last rs)"
    by blast
  let ?blk = "Forward ob0 action # map (step_event action) rs
                @ Backward (foldl (+) 0 (map step_reward rs)) (step_done (last rs)) metrics
                # [On_step_end es None]"
  have "forward_blocks k ?blk"
    by (rule forward_blocks_block[OF s(3)]) simp
  from forward_blocks_append[OF forward_blocks_none[of "[On_step_begin es]" k] this]
  have blk: "forward_blocks k (On_step_begin es # ?blk)" by simp
  show ?case
  proof (cases d)
    case True
    with st fw ra bw s blk show ?thesis by (simp add: Let_def)
  next
    case False
    let ?st' = "(ob, er + reward, es + 1, w\<lparr>env := e1, agent := ag2\<rparr>)"
    from False st fw ra bw s
    have "fst (test_steps (Suc fuel) I k st) = (On_step_begin es # ?blk) @ fst (test_steps fuel I k ?st')"
      by (simp add: Let_def split: prod.splits)
    with forward_blocks_append[OF blk Suc.IH[of ?st']] show ?thesis by simp
  qed
qed

lemma test_episode_forward_blocks:
  assumes "1 \<le> k"
  shows "forward_blocks k (fst (test_episode fuel I k ep w))"
proof -
  obtain ob e where er: "env_reset I (env w) = (ob, e)" by (cases "env_reset I (env w)")
  let ?w1 = "w\<lparr>env := e, agent := reset_states I (agent w)\<rparr>"
  obtain evs out where t: "test_steps fuel I k (ob, 0, 0, ?w1) = (evs, out)"
    by (cases "test_steps fuel I k (ob, 0, 0, ?w1)")
  from test_steps_forward_blocks[OF assms, of fuel I "(ob, 0, 0, ?w1)"] t
  have b: "forward_blocks k evs" by simp
  have "\<exists>tail. fst (test_episode fuel I k ep w)
                 = [On_episode_begin ep, Reset_states, Env_reset ob] @ (if ob = None then [] else evs) @ tail
               \<and> list_all (\<lambda>ev. \<not> is_forward ev) tail"
    using er t by (cases out) (auto simp: test_episode_def Let_def)
  then obtain tail
    where e: "fst (test_episode fuel I k ep w)
                = [On_episode_begin ep, Reset_states, Env_reset ob] @ (if ob = None then [] else evs) @ tail"
      and n: "list_all (\<lambda>ev. \<not> is_forward ev) tail"
    by blast
  have "forward_blocks k (if ob = None then [] else evs)"
    using b by (simp add: forward_blocks_none)
  from forward_blocks_append[OF forward_blocks_none[of "[On_episode_begin ep, Reset_states, Env_reset ob]" k]
         forward_blocks_append[OF this forward_blocks_none[OF n, of k]]] e
  show ?thesis by simp
qed

lemma test_episodes_forward_blocks:
  assumes "1 \<le> k"
  shows "forward_blocks k (fst (test_episodes fuel I k eps w))"
proof (induction eps arbitrary: w)
  case Nil
  show ?case by (simp add: forward_blocks_none)
next
  case (Cons ep eps)
  obtain evs out where t: "test_episode fuel I k ep w = (evs, out)"
    by (cases "test_episode fuel I k ep w")
  from test_episode_forward_blocks[OF assms, of fuel I ep w] t have b: "forward_blocks k evs"
    by simp
  show ?case
  proof (cases "\<exists>w'. out = Some (Inr w')")
    case True
    then obtain w' where "out = Some (Inr w')" by blast
    with t have "fst (test_episodes fuel I k (ep # eps) w) = evs @ fst (test_episodes fuel I k eps w')"
      by (simp split: prod.splits)
    with forward_blocks_append[OF b Cons.IH[of w']] show ?thesis by simp
  next
    case False
    with t have "fst (test_episodes fuel I k (ep # eps) w) = evs"
      by (auto split: option.splits sum.splits)
    with b show ?thesis by simp
  qed
qed

text \<open>
  C2. For \<^verbatim>\<open>action_repetition = k \<ge> 1\<close>, in every trace of \<^verbatim>\<open>fit\<close> and of \<^verbatim>\<open>test\<close>
  (whatever the fuel, the arguments and the implementation), each call
  \<^verbatim>\<open>forward(observation)\<close> is followed at once by at least one and at most \<open>k\<close> calls of
  \<^verbatim>\<open>env.step\<close>, all with the action that \<^verbatim>\<open>forward\<close> returned; no call follows one that
  returned \<^verbatim>\<open>done\<close>, and there are fewer than \<open>k\<close> only if the last returned \<^verbatim>\<open>done\<close>;
  then comes the call of \<^verbatim>\<open>backward\<close>, whose reward argument is the sum (from \<open>0\<close>, in
  the order of the calls) of the rewards these calls returned.
\<close>

theorem action_repetition_blocks:
  fixes I :: "('e, 'g, 's, 'o, 'a, 'r::{plus,zero}, 'm) impl"
  assumes "1 \<le> action_repetition"
  shows "forward_blocks action_repetition
           (fst (fit fuel I nb_episodes nb_steps action_repetition callbacks verbose visualize
                   validation_size nb_max_random_start_steps log_interval w))
       \<and> forward_blocks action_repetition
           (fst (test fuel' I test_nb_episodes action_repetition test_callbacks test_visualize w))"
proof
  show "forward_blocks action_repetition
           (fst (fit fuel I nb_episodes nb_steps action_repetition callbacks verbose visualize
                   validation_size nb_max_random_start_steps log_interval w))"
  proof (cases "compiled (agent w)")
    case False
    then show ?thesis by (simp add: fit_def forward_blocks_none)
  next
    case True
    from fit_trace[OF True assms, of fuel I nb_episodes nb_steps callbacks verbose visualize
                     validation_size nb_max_random_start_steps log_interval]
    obtain tail
      where t: "fst (fit fuel I nb_episodes nb_steps action_repetition callbacks verbose visualize
                       validation_size nb_max_random_start_steps log_interval w)
                  = fit_setup nb_episodes nb_steps callbacks verbose visualize log_interval w
                      @ On_train_begin
                      # fst (fit_loop fuel I nb_episodes nb_steps action_repetition
                               nb_max_random_start_steps
                               (fit_frame0 (fit_prologue nb_episodes nb_steps callbacks verbose
                                              visualize log_interval w)))
                      @ tail"
        and "tail = [] \<or> tail = [On_train_end]"
      by blast
    then have n: "list_all (\<lambda>ev. \<not> is_forward ev) tail" by auto
    have p: "list_all (\<lambda>ev. \<not> is_forward ev)
               (fit_setup nb_episodes nb_steps callbacks verbose visualize log_interval w
                  @ [On_train_begin :: ('o, 'a, 'r, 'm) event])"
      by (simp add: fit_setup_def)
    from forward_blocks_append[OF forward_blocks_none[OF p]
           forward_blocks_append[OF fit_loop_forward_blocks[OF assms] forward_blocks_none[OF n]]]
    show ?thesis unfolding t by simp
  qed
  show "forward_blocks action_repetition
           (fst (test fuel' I test_nb_episodes action_repetition test_callbacks test_visualize w))"
  proof (cases "compiled (agent w)")
    case False
    then show ?thesis by (simp add: test_def forward_blocks_none)
  next
    case True
    let ?pre = "test_setup test_nb_episodes test_callbacks test_visualize w
                  :: ('o, 'a, 'r, 'm) event list"
    have t: "fst (test fuel' I test_nb_episodes action_repetition test_callbacks test_visualize w)
               = ?pre @ fst (test_episodes fuel' I action_repetition [0 .. test_nb_episodes - 1]
                               (test_prologue test_callbacks test_visualize w))"
      by (simp add: test_unfold[OF True assms] split: prod.splits)
    have p: "list_all (\<lambda>ev. \<not> is_forward ev) ?pre"
      by (simp add: test_setup_def)
    from forward_blocks_append[OF forward_blocks_none[OF p] test_episodes_forward_blocks[OF assms]]
    show ?thesis unfolding t .
  qed
qed

theorem action_repetition_blocks_witness:
  "(1::int) \<le> 3
   \<and> forward_blocks 3 (fst (fit 9 example_impl (Some 1) None 3 None 0 False 1000 0 10000
                             example_world))
   \<and> forward_blocks 3 (fst (test 9 example_impl 1 3 None False example_world))
   \<and> fst (test 9 example_impl 1 3 None False example_world)
       = [New_CallbackList [TestLogger], Set_model,
          Set_params [(''nb_episodes'', PyInt 1), (''env'', PyEnv)],
          On_episode_begin 0, Reset_states, Env_reset (Some 2), On_step_begin 0]
         @ Forward (Some 2) 7
         # [Env_step 7 (Some 1) 1 False, Env_step 7 (Some 0) 1 True]
         @ Backward 2 True 0
         # [On_step_end 0 None,
            On_episode_end 0 [(''episode_reward'', PyFloat 2), (''nb_steps'', PyInt 1)]]"
proof -
  have k: "(1::int) \<le> 3"
    by simp
  have t: "fst (test 9 example_impl 1 3 None False example_world)
       = [New_CallbackList [TestLogger], Set_model,
          Set_params [(''nb_episodes'', PyInt 1), (''env'', PyEnv)],
          On_episode_begin 0, Reset_states, Env_reset (Some 2), On_step_begin 0]
         @ Forward (Some 2) 7
         # [Env_step 7 (Some 1) 1 False, Env_step 7 (Some 0) 1 True]
         @ Backward 2 True 0
         # [On_step_end 0 None,
            On_episode_end 0 [(''episode_reward'', PyFloat 2), (''nb_steps'', PyInt 1)]]"
    by code_simp
  from action_repetition_blocks [OF k, where I = example_impl and w = example_world
      and fuel = 9 and fuel' = 9 and nb_episodes = "Some 1" and nb_steps = None
      and callbacks = None and verbose = 0 and visualize = False and validation_size = 1000
      and nb_max_random_start_steps = 0 and log_interval = 10000
      and test_nb_episodes = 1 and test_callbacks = None and test_visualize = False]
  show ?thesis
    using t by (intro conjI) simp_all
qed

section \<open>The reward of an episode\<close>

lemma since_begin_append:
  "since_begin st (xs @ ys) = since_begin (since_begin st xs) ys"
  by (induction st xs rule: since_begin.induct) simp_all

lemma since_begin_no_begin:
  "episode_begins xs = [] \<Longrightarrow> since_begin (Some (e, seg)) xs = Some (e, seg @ xs)"
proof (induction xs arbitrary: seg)
  case Nil
  show ?case by simp
next
  case (Cons ev xs)
  then show ?case by (cases ev) (simp_all add: episode_begins_def List.map_filter_def)
qed

lemma since_begin_last:
  "episode_begins seg = [] \<Longrightarrow> since_begin st (pre @ On_episode_begin e # seg) = Some (e, seg)"
  by (simp add: since_begin_append since_begin_no_begin)

lemma rewards_tracked_ok:
  "rewards_tracked tr \<Longrightarrow> episode_rewards_ok tr"
  unfolding rewards_tracked_def episode_rewards_ok_def
proof (intro allI impI)
  fix pre e seg e' logs rest
  assume a: "\<forall>p e' logs rest e seg.
        tr = p @ On_episode_end e' logs # rest \<longrightarrow> since_begin None p = Some (e, seg) \<longrightarrow>
        e' = e \<and>
        map_of logs ''episode_reward'' = Some (PyFloat (foldl (+) 0 (per_step_rewards seg)))"
    and t: "tr = pre @ On_episode_begin e # seg @ On_episode_end e' logs # rest"
    and n: "episode_begins seg = []"
  from t have "tr = (pre @ On_episode_begin e # seg) @ On_episode_end e' logs # rest" by simp
  with a since_begin_last[OF n, of None pre e]
  show "e' = e \<and>
        map_of logs ''episode_reward'' = Some (PyFloat (foldl (+) 0 (per_step_rewards seg)))"
    by blast
qed

lemma per_step_rewards_skip:
  "\<not> is_forward ev \<Longrightarrow> per_step_rewards (ev # tr) = per_step_rewards tr"
  by (cases ev) simp_all

lemma per_step_rewards_no_forward:
  "list_all (\<lambda>ev. \<not> is_forward ev) xs \<Longrightarrow> per_step_rewards (xs @ ys) = per_step_rewards ys"
  by (induction xs) (simp_all add: per_step_rewards_skip)

lemma stable_no_forward:
  assumes "list_all (\<lambda>ev. \<not> is_forward ev) xs"
  shows "stable xs" and "per_step_rewards xs = []"
proof -
  from per_step_rewards_no_forward[OF assms, of "[]"] show e: "per_step_rewards xs = []" by simp
  show "stable xs"
    unfolding stable_def using per_step_rewards_no_forward[OF assms] e by simp
qed

lemma stable_append:
  "stable xs \<Longrightarrow> stable ys \<Longrightarrow> stable (xs @ ys)"
  by (simp add: stable_def)

lemma per_step_rewards_stable:
  "stable xs \<Longrightarrow> per_step_rewards (xs @ ys) = per_step_rewards xs @ per_step_rewards ys"
  by (simp add: stable_def)

lemma leading_step_rewards_block:
  "leading_step_rewards (map (step_event a) rs @ Backward R D m # tr) = map step_reward rs"
  by (induction rs) auto

lemma per_step_rewards_block:
  "per_step_rewards (On_step_begin es # Forward ob a # map (step_event a) rs
                       @ Backward R D m # On_step_end es' slogs # tr)
     = foldl (+) 0 (map step_reward rs) # per_step_rewards tr"
proof -
  have "per_step_rewards (map (step_event a) rs @ Backward R D m # On_step_end es' slogs # tr)
          = per_step_rewards (Backward R D m # On_step_end es' slogs # tr)"
    by (rule per_step_rewards_no_forward[OF step_events_not_forward])
  then show ?thesis by (simp add: leading_step_rewards_block)
qed

lemma stable_block:
  "stable (On_step_begin es # Forward ob a # map (step_event a) rs
             @ [Backward R D m, On_step_end es' slogs])"
  unfolding stable_def
proof
  fix more
  from per_step_rewards_block[of es ob a rs R D m es' slogs more]
       per_step_rewards_block[of es ob a rs R D m es' slogs "[]"]
  show "per_step_rewards ((On_step_begin es # Forward ob a # map (step_event a) rs
             @ [Backward R D m, On_step_end es' slogs]) @ more)
        = per_step_rewards (On_step_begin es # Forward ob a # map (step_event a) rs
             @ [Backward R D m, On_step_end es' slogs]) @ per_step_rewards more"
    by simp
qed

lemma rewards_tracked_no_end:
  assumes "rewards_tracked hist" and "episode_ends evs = []"
  shows "rewards_tracked (hist @ evs)"
  unfolding rewards_tracked_def
proof (intro allI impI)
  fix p e' logs rest e seg
  assume d: "hist @ evs = p @ On_episode_end e' logs # rest"
    and s: "since_begin None p = Some (e, seg)"
  from d consider us where "hist = p @ On_episode_end e' logs # us" "rest = us @ evs"
    | us where "p = hist @ us" "evs = us @ On_episode_end e' logs # rest"
    by (auto simp: append_eq_append_conv2 append_eq_Cons_conv)
  then show "e' = e \<and>
        map_of logs ''episode_reward'' = Some (PyFloat (foldl (+) 0 (per_step_rewards seg)))"
  proof cases
    case 1
    with assms(1) s show ?thesis unfolding rewards_tracked_def by blast
  next
    case 2
    with assms(2) have False by simp
    then show ?thesis ..
  qed
qed

lemma rewards_tracked_end:
  assumes "rewards_tracked hist"
    and "since_begin None hist = Some (e, seg)"
    and "map_of logs ''episode_reward'' = Some (PyFloat (foldl (+) 0 (per_step_rewards seg)))"
  shows "rewards_tracked (hist @ [On_episode_end e logs])"
  unfolding rewards_tracked_def
proof (intro allI impI)
  fix p e' logs' rest e0 seg0
  assume d: "hist @ [On_episode_end e logs] = p @ On_episode_end e' logs' # rest"
    and s: "since_begin None p = Some (e0, seg0)"
  from d consider us where "hist = p @ On_episode_end e' logs' # us"
    | "p = hist" "e' = e" "logs' = logs"
    by (auto simp: append_eq_append_conv2 append_eq_Cons_conv Cons_eq_append_conv)
  then show "e' = e0 \<and>
        map_of logs' ''episode_reward'' = Some (PyFloat (foldl (+) 0 (per_step_rewards seg0)))"
  proof cases
    case 1
    with assms(1) s show ?thesis unfolding rewards_tracked_def by blast
  next
    case 2
    with assms(2,3) s show ?thesis by simp
  qed
qed

lemma fit_step_shape:
  assumes "1 \<le> k" and "fit_step I k fr = (evs, out)"
  shows "(evs = [] \<and> (\<exists>err. out = Inl err))
       \<or> (\<exists>er es ob0 a rs m slogs fr1.
             episode_reward fr = Some er \<and> episode_step fr = Some es \<and> observation fr = Some ob0
             \<and> out = Inr fr1 \<and> repetition_ok (nat k) rs
             \<and> evs = (On_step_begin es # Forward (Some ob0) a # map (step_event a) rs
                       @ [Backward (foldl (+) 0 (map step_reward rs)) (step_done (last rs)) m,
                          On_step_end es slogs])
                     @ (if step_done (last rs)
                        then [On_episode_end (episode fr)
                                [(''episode_reward'', PyFloat (er + foldl (+) 0 (map step_reward rs))),
                                 (''nb_episode_steps'', PyInt (es + 1)),
                                 (''nb_steps'', PyInt (step fr + 1))]]
                        else [])
             \<and> step fr1 = step fr + 1
             \<and> (if step_done (last rs) then observation fr1 = None \<and> episode fr1 = episode fr + 1
                 else episode fr1 = episode fr
                      \<and> episode_reward fr1 = Some (er + foldl (+) 0 (map step_reward rs))
                      \<and> episode_step fr1 = Some (es + 1)))"
proof (cases "\<exists>er es ob0. episode_reward fr = Some er \<and> episode_step fr = Some es
                 \<and> observation fr = Some ob0")
  case False
  with assms(2) have "evs = [] \<and> (\<exists>err. out = Inl err)"
    by (auto simp: fit_step_def split: option.splits)
  then show ?thesis ..
next
  case True
  then obtain er es ob0
    where f: "episode_reward fr = Some er" "episode_step fr = Some es" "observation fr = Some ob0"
    by blast
  obtain action ag1 where fw: "forward I (Some ob0) (agent (world fr)) = (action, ag1)"
    by (cases "forward I (Some ob0) (agent (world fr))")
  obtain evs1 ob reward d e1
    where ra: "repeat_action I (nat k) action (Some ob0, 0, False, env (world fr))
                 = (evs1, (ob, reward, d, e1))"
    by (cases "repeat_action I (nat k) action (Some ob0, 0, False, env (world fr))") auto
  obtain metrics ag2 where bw: "backward I reward d ag1 = (metrics, ag2)"
    by (cases "backward I reward d ag1")
  from assms(1) have "0 < nat k" by simp
  with repeat_action_shape[OF ra] obtain rs
    where s: "evs1 = map (step_event action) rs" "reward = foldl (+) 0 (map step_reward rs)"
             "repetition_ok (nat k) rs" "d = step_done (last rs)"
    by blast
  have "\<exists>slogs fr1.
             out = Inr fr1
             \<and> evs = (On_step_begin es # Forward (Some ob0) action # map (step_event action) rs
                       @ [Backward (foldl (+) 0 (map step_reward rs)) (step_done (last rs)) metrics,
                          On_step_end es slogs])
                     @ (if step_done (last rs)
                        then [On_episode_end (episode fr)
                                [(''episode_reward'', PyFloat (er + foldl (+) 0 (map step_reward rs))),
                                 (''nb_episode_steps'', PyInt (es + 1)),
                                 (''nb_steps'', PyInt (step fr + 1))]]
                        else [])
             \<and> step fr1 = step fr + 1
             \<and> (if step_done (last rs) then observation fr1 = None \<and> episode fr1 = episode fr + 1
                 else episode fr1 = episode fr
                      \<and> episode_reward fr1 = Some (er + foldl (+) 0 (map step_reward rs))
                      \<and> episode_step fr1 = Some (es + 1))"
    using assms(2) f fw ra bw s(1,2,4)
    by (cases d) (auto simp: fit_step_def Let_def)
  with f s(3) show ?thesis by blast
qed

lemma start_episode_frame:
  "start_episode I v fr = (evs, Inr fr0) \<Longrightarrow>
     episode fr0 = episode fr \<and> step fr0 = step fr
     \<and> episode_reward fr0 = Some 0 \<and> episode_step fr0 = Some 0"
  by (auto simp: start_episode_def Let_def split: prod.splits if_splits sum.splits)

lemma start_events_plain:
  assumes "list_all start_event evs"
  shows "episode_begins evs = []" and "episode_ends evs = []"
  using assms
  by (induction evs) (auto simp: episode_begins_def episode_ends_def List.map_filter_def
                           elim: start_event.elims)

lemma step_events_plain:
  "episode_begins (map (step_event a) rs) = []" "episode_ends (map (step_event a) rs) = []"
  by (induction rs) (auto simp: episode_begins_def episode_ends_def List.map_filter_def)

lemma fit_step_rewards:
  fixes I :: "('e, 'g, 's, 'o, 'a, 'r::{plus,zero}, 'm) impl"
  assumes "1 \<le> k" and "fit_step I k fr = (evs, out)"
    and "rewards_tracked hist" and "rewards_follow hist fr"
  shows "rewards_tracked (hist @ evs) \<and> (\<forall>fr1. out = Inr fr1 \<longrightarrow> rewards_follow (hist @ evs) fr1)"
proof -
  from fit_step_shape[OF assms(1,2)]
  consider "evs = []" "\<exists>err. out = Inl err"
    | er es ob0 a rs m slogs fr1
    where "episode_reward fr = Some er" "episode_step fr = Some es" "observation fr = Some ob0"
      and "out = Inr fr1"
      and "evs = (On_step_begin es # Forward (Some ob0) a # map (step_event a) rs
                       @ [Backward (foldl (+) 0 (map step_reward rs)) (step_done (last rs)) m,
                          On_step_end es slogs])
                     @ (if step_done (last rs)
                        then [On_episode_end (episode fr)
                                [(''episode_reward'', PyFloat (er + foldl (+) 0 (map step_reward rs))),
                                 (''nb_episode_steps'', PyInt (es + 1)),
                                 (''nb_steps'', PyInt (step fr + 1))]]
                        else [])"
      and "if step_done (last rs) then observation fr1 = None \<and> episode fr1 = episode fr + 1
                 else episode fr1 = episode fr
                      \<and> episode_reward fr1 = Some (er + foldl (+) 0 (map step_reward rs))
                      \<and> episode_step fr1 = Some (es + 1)"
    by blast
  then show ?thesis
  proof cases
    case 1
    with assms(3) show ?thesis by auto
  next
    case 2
    let ?R = "foldl (+) 0 (map step_reward rs)"
    let ?blk = "On_step_begin es # Forward (Some ob0) a # map (step_event a) rs
                  @ [Backward ?R (step_done (last rs)) m, On_step_end es slogs]"
    from assms(4) 2(1,3) obtain seg
      where sb: "since_begin None hist = Some (episode fr, seg)" and st: "stable seg"
        and er: "er = foldl (+) 0 (per_step_rewards seg)"
      by (auto simp: rewards_follow_def)
    have nb: "episode_begins ?blk = []" and ne: "episode_ends ?blk = []"
      by (simp_all add: step_events_plain)
    from sb since_begin_no_begin[OF nb, of "episode fr" seg]
    have sb': "since_begin None (hist @ ?blk) = Some (episode fr, seg @ ?blk)"
      by (simp add: since_begin_append)
    from per_step_rewards_block[of es "Some ob0" a rs ?R "step_done (last rs)" m es slogs "[]"]
    have pb: "per_step_rewards ?blk = [?R]" by simp
    with per_step_rewards_stable[OF st, of ?blk]
    have ps: "per_step_rewards (seg @ ?blk) = per_step_rewards seg @ [?R]" by simp
    have st': "stable (seg @ ?blk)"
      by (rule stable_append[OF st stable_block])
    from rewards_tracked_no_end[OF assms(3) ne] have t1: "rewards_tracked (hist @ ?blk)" .
    show ?thesis
    proof (cases "step_done (last rs)")
      case True
      let ?logs = "[(''episode_reward'', PyFloat (er + ?R)),
                    (''nb_episode_steps'', PyInt (es + 1)),
                    (''nb_steps'', PyInt (step fr + 1))] :: ('o, 'a, 'r, 'm) pydict"
      have "map_of ?logs ''episode_reward''
              = Some (PyFloat (foldl (+) 0 (per_step_rewards (seg @ ?blk))))"
        by (simp add: ps er)
      from rewards_tracked_end[OF t1 sb' this] True 2(5)
      have "rewards_tracked (hist @ evs)" by simp
      moreover from True 2(4,6) have "\<forall>fr1'. out = Inr fr1' \<longrightarrow> rewards_follow (hist @ evs) fr1'"
        by (simp add: rewards_follow_def)
      ultimately show ?thesis ..
    next
      case False
      with 2(5) have e: "evs = ?blk" by simp
      from False 2(6) have f1: "episode fr1 = episode fr" "episode_reward fr1 = Some (er + ?R)"
        by simp_all
      have "rewards_follow (hist @ ?blk) fr1"
        unfolding rewards_follow_def using sb' st' ps f1 er by auto
      with t1 e 2(4) show ?thesis by simp
    qed
  qed
qed

lemma fit_body_rewards:
  fixes I :: "('e, 'g, 's, 'o, 'a, 'r::{plus,zero}, 'm) impl"
  assumes "1 \<le> k" and "fit_body I k v fr = (evs, out)"
    and "rewards_tracked hist" and "rewards_follow hist fr"
  shows "rewards_tracked (hist @ evs) \<and> (\<forall>fr1. out = Inr fr1 \<longrightarrow> rewards_follow (hist @ evs) fr1)"
proof (cases "observation fr = None")
  case False
  from assms(2) have "fit_step I k fr = (evs, out)"
    unfolding fit_body_running[OF False] .
  from fit_step_rewards[OF assms(1) this assms(3,4)] show ?thesis .
next
  case True
  obtain evs0 out0 where s: "start_episode I v fr = (evs0, out0)"
    by (cases "start_episode I v fr")
  from start_episode_events[OF s] obtain warm
    where e0: "evs0 = On_episode_begin (episode fr) # warm" and w: "list_all start_event warm"
    by blast
  from start_events_plain[OF w] have nb: "episode_begins warm = []" and ne: "episode_ends evs0 = []"
    by (simp_all add: e0)
  from rewards_tracked_no_end[OF assms(3) ne] have t0: "rewards_tracked (hist @ evs0)" .
  show ?thesis
  proof (cases out0)
    case (Inl err)
    with True s assms(2) have "evs = evs0" "out = Inl err" by (auto simp: fit_body_def)
    with t0 show ?thesis by simp
  next
    case (Inr fr0)
    from start_episode_frame[OF s[unfolded Inr]]
    have f0: "episode fr0 = episode fr" "episode_reward fr0 = Some 0" by simp_all
    from stable_no_forward[OF start_event_not_forward[OF w]]
    have sw: "stable warm" "per_step_rewards warm = []" .
    from since_begin_last[OF nb, of None hist "episode fr"] e0
    have "since_begin None (hist @ evs0) = Some (episode fr0, warm)" by (simp add: f0)
    with sw f0 have fo: "rewards_follow (hist @ evs0) fr0" by (auto simp: rewards_follow_def)
    obtain evs1 out1 where t: "fit_step I k fr0 = (evs1, out1)" by (cases "fit_step I k fr0")
    with True s Inr assms(2) have e: "evs = evs0 @ evs1" "out = out1" by (auto simp: fit_body_def)
    from fit_step_rewards[OF assms(1) t t0 fo] e show ?thesis by simp
  qed
qed

lemma fit_loop_rewards:
  fixes I :: "('e, 'g, 's, 'o, 'a, 'r::{plus,zero}, 'm) impl"
  assumes "1 \<le> k"
  shows "rewards_tracked hist \<Longrightarrow> rewards_follow hist fr
           \<Longrightarrow> rewards_tracked (hist @ fst (fit_loop fuel I nbe nbs k v fr))"
proof (induction fuel arbitrary: hist fr)
  case 0
  then show ?case by simp
next
  case (Suc fuel)
  show ?case
  proof (cases "fit_cond nbe nbs fr")
    case False
    with Suc.prems show ?thesis by simp
  next
    case True
    obtain evs1 out1 where b: "fit_body I k v fr = (evs1, out1)"
      by (cases "fit_body I k v fr")
    from fit_body_rewards[OF assms b Suc.prems]
    have t1: "rewards_tracked (hist @ evs1)"
      and f1: "\<forall>fr1. out1 = Inr fr1 \<longrightarrow> rewards_follow (hist @ evs1) fr1"
      by simp_all
    show ?thesis
    proof (cases out1)
      case (Inl err)
      with True b t1 show ?thesis by simp
    next
      case (Inr fr1)
      with True b have "fst (fit_loop (Suc fuel) I nbe nbs k v fr)
                          = evs1 @ fst (fit_loop fuel I nbe nbs k v fr1)"
        by (simp split: prod.splits)
      with Suc.IH[OF t1, of fr1] f1 Inr show ?thesis by simp
    qed
  qed
qed

lemma rewards_tracked_plain:
  "episode_ends evs = [] \<Longrightarrow> rewards_tracked evs"
proof -
  assume "episode_ends evs = []"
  moreover have "rewards_tracked []" by (simp add: rewards_tracked_def)
  ultimately show ?thesis using rewards_tracked_no_end[of "[]" evs] by simp
qed

lemma fit_rewards_tracked:
  fixes I :: "('e, 'g, 's, 'o, 'a, 'r::{plus,zero}, 'm) impl"
  shows "rewards_tracked (fst (fit fuel I nbe nbs k cbs verbose vis vs v li w))"
proof (cases "compiled (agent w) \<and> 1 \<le> k")
  case False
  then show ?thesis by (auto simp: fit_def rewards_tracked_def)
next
  case True
  then have c: "compiled (agent w)" and k: "1 \<le> k" by simp_all
  let ?h = "fit_setup nbe nbs cbs verbose vis li w @ [On_train_begin :: ('o, 'a, 'r, 'm) event]"
  let ?fr0 = "fit_frame0 (fit_prologue nbe nbs cbs verbose vis li w) :: ('e, 'g, 's, 'o, 'r) frame"
  from fit_trace[OF c k, of fuel I nbe nbs cbs verbose vis vs v li] obtain tail
    where t: "fst (fit fuel I nbe nbs k cbs verbose vis vs v li w)
                = (?h @ fst (fit_loop fuel I nbe nbs k v ?fr0)) @ tail"
      and tl: "tail = [] \<or> tail = [On_train_end]"
    by auto
  have h: "rewards_tracked ?h"
    by (rule rewards_tracked_plain) (simp add: fit_setup_def)
  have "rewards_follow ?h ?fr0" by (simp add: rewards_follow_def fit_frame0_def)
  from fit_loop_rewards[OF k h this]
  have "rewards_tracked (?h @ fst (fit_loop fuel I nbe nbs k v ?fr0))" .
  moreover from tl have "episode_ends tail = []" by auto
  ultimately show ?thesis
    unfolding t by (rule rewards_tracked_no_end)
qed

lemma test_steps_rewards:
  fixes I :: "('e, 'g, 's, 'o, 'a, 'r::{plus,zero}, 'm) impl"
  assumes "1 \<le> k"
  shows "test_steps fuel I k (ob0, er, es, w) = (evs, out) \<Longrightarrow>
     episode_begins evs = [] \<and> episode_ends evs = [] \<and> stable evs
     \<and> (\<forall>ob' er' es' w'. out = Some (ob', er', es', w')
            \<longrightarrow> er' = foldl (+) er (per_step_rewards evs))"
proof (induction fuel arbitrary: ob0 er es w evs out)
  case 0
  then show ?case by (auto simp: stable_def)
next
  case (Suc fuel)
  obtain action ag1 where fw: "forward I ob0 (agent w) = (action, ag1)"
    by (cases "forward I ob0 (agent w)")
  obtain evs1 ob reward d e1
    where ra: "repeat_action I (nat k) action (ob0, 0, False, env w) = (evs1, (ob, reward, d, e1))"
    by (cases "repeat_action I (nat k) action (ob0, 0, False, env w)") auto
  obtain metrics ag2 where bw: "backward I reward d ag1 = (metrics, ag2)"
    by (cases "backward I reward d ag1")
  from assms have "0 < nat k" by simp
  with repeat_action_shape[OF ra] obtain rs
    where s: "evs1 = map (step_event action) rs" "reward = foldl (+) 0 (map step_reward rs)"
             "d = step_done (last rs)"
    by blast
  let ?blk = "On_step_begin es # Forward ob0 action # map (step_event action) rs
                @ [Backward reward d metrics, On_step_end es None]"
  have nb: "episode_begins ?blk = []" and ne: "episode_ends ?blk = []"
    by (simp_all add: step_events_plain)
  have sb: "stable ?blk" by (rule stable_block)
  from per_step_rewards_block[of es ob0 action rs reward d metrics es None "[]"] s(2)
  have pb: "per_step_rewards ?blk = [reward]" by simp
  show ?case
  proof (cases d)
    case True
    with Suc.prems fw ra bw s(1)
    have "evs = ?blk" "out = Some (ob, er + reward, es + 1, w\<lparr>env := e1, agent := ag2\<rparr>)"
      by (auto simp: Let_def)
    with nb ne sb pb show ?thesis by simp
  next
    case False
    let ?st' = "(ob, er + reward, es + 1, w\<lparr>env := e1, agent := ag2\<rparr>)"
    obtain evs2 out2 where r: "test_steps fuel I k ?st' = (evs2, out2)"
      by (cases "test_steps fuel I k ?st'")
    with False Suc.prems fw ra bw s(1) have e: "evs = ?blk @ evs2" "out = out2"
      by (auto simp: Let_def)
    from Suc.IH[OF r]
    have i: "episode_begins evs2 = []" "episode_ends evs2 = []" "stable evs2"
      "\<forall>ob' er' es' w'. out2 = Some (ob', er', es', w')
            \<longrightarrow> er' = foldl (+) (er + reward) (per_step_rewards evs2)"
      by simp_all
    from per_step_rewards_stable[OF sb, of evs2] pb
    have "per_step_rewards (?blk @ evs2) = reward # per_step_rewards evs2" by simp
    with e i nb ne stable_append[OF sb i(3)] show ?thesis by simp
  qed
qed

lemma test_episode_rewards:
  fixes I :: "('e, 'g, 's, 'o, 'a, 'r::{plus,zero}, 'm) impl"
  assumes "1 \<le> k" and "rewards_tracked hist"
  shows "rewards_tracked (hist @ fst (test_episode fuel I k ep w))"
proof -
  obtain ob e where er: "env_reset I (env w) = (ob, e)" by (cases "env_reset I (env w)")
  let ?w1 = "w\<lparr>env := e, agent := reset_states I (agent w)\<rparr>"
  let ?pre = "[On_episode_begin ep, Reset_states, Env_reset ob] :: ('o, 'a, 'r, 'm) event list"
  obtain evs out where t: "test_steps fuel I k (ob, 0, 0, ?w1) = (evs, out)"
    by (cases "test_steps fuel I k (ob, 0, 0, ?w1)")
  from test_steps_rewards[OF assms(1) t]
  have i: "episode_begins evs = []" "episode_ends evs = []"
    "\<forall>ob' er' es' w'. out = Some (ob', er', es', w') \<longrightarrow> er' = foldl (+) 0 (per_step_rewards evs)"
    by simp_all
  have p: "rewards_tracked (hist @ ?pre)"
    by (rule rewards_tracked_no_end[OF assms(2)]) simp
  show ?thesis
  proof (cases "ob = None")
    case True
    with er p show ?thesis by (simp add: test_episode_def Let_def)
  next
    case False
    then obtain y where y: "ob = Some y" by auto
    from i(2) have "episode_ends (?pre @ evs) = []" by simp
    from rewards_tracked_no_end[OF assms(2) this]
    have q: "rewards_tracked (hist @ ?pre @ evs)" .
    show ?thesis
    proof (cases out)
      case None
      with y er t q show ?thesis by (simp add: test_episode_def Let_def)
    next
      case (Some st)
      obtain ob' er' es' w' where st: "st = (ob', er', es', w')" by (cases st) auto
      let ?logs = "[(''episode_reward'', PyFloat er'), (''nb_steps'', PyInt es')]
                     :: ('o, 'a, 'r, 'm) pydict"
      from i(1) have "episode_begins ([Reset_states, Env_reset ob] @ evs) = []" by simp
      from since_begin_last[OF this, of None hist ep]
      have sb: "since_begin None (hist @ ?pre @ evs) = Some (ep, [Reset_states, Env_reset ob] @ evs)"
        by simp
      from i(3) Some st
      have "map_of ?logs ''episode_reward''
              = Some (PyFloat (foldl (+) 0 (per_step_rewards ([Reset_states, Env_reset ob] @ evs))))"
        by simp
      from rewards_tracked_end[OF q sb this] y er t Some st show ?thesis
        by (simp add: test_episode_def Let_def)
    qed
  qed
qed

lemma test_episodes_rewards:
  fixes I :: "('e, 'g, 's, 'o, 'a, 'r::{plus,zero}, 'm) impl"
  assumes "1 \<le> k"
  shows "rewards_tracked hist \<Longrightarrow> rewards_tracked (hist @ fst (test_episodes fuel I k eps w))"
proof (induction eps arbitrary: hist w)
  case Nil
  then show ?case by simp
next
  case (Cons ep eps)
  obtain evs out where t: "test_episode fuel I k ep w = (evs, out)"
    by (cases "test_episode fuel I k ep w")
  from test_episode_rewards[OF assms Cons.prems, of fuel I ep w] t
  have b: "rewards_tracked (hist @ evs)" by simp
  show ?case
  proof (cases "\<exists>w'. out = Some (Inr w')")
    case True
    then obtain w' where "out = Some (Inr w')" by blast
    with t have "fst (test_episodes fuel I k (ep # eps) w) = evs @ fst (test_episodes fuel I k eps w')"
      by (simp split: prod.splits)
    with Cons.IH[OF b, of w'] show ?thesis by simp
  next
    case False
    with t have "fst (test_episodes fuel I k (ep # eps) w) = evs"
      by (auto split: option.splits sum.splits)
    with b show ?thesis by simp
  qed
qed

lemma test_rewards_tracked:
  fixes I :: "('e, 'g, 's, 'o, 'a, 'r::{plus,zero}, 'm) impl"
  shows "rewards_tracked (fst (test fuel I n k cbs vis w))"
proof (cases "compiled (agent w) \<and> 1 \<le> k")
  case False
  then show ?thesis by (auto simp: test_def rewards_tracked_def)
next
  case True
  then have c: "compiled (agent w)" and k: "1 \<le> k" by simp_all
  let ?pre = "test_setup n cbs vis w :: ('o, 'a, 'r, 'm) event list"
  have t: "fst (test fuel I n k cbs vis w)
             = ?pre @ fst (test_episodes fuel I k [0 .. n - 1] (test_prologue cbs vis w))"
    by (simp add: test_unfold[OF c k] split: prod.splits)
  have "rewards_tracked ?pre"
    by (rule rewards_tracked_plain) (simp add: test_setup_def)
  from test_episodes_rewards[OF k this] show ?thesis unfolding t .
qed

text \<open>
  C3. In every trace of \<^verbatim>\<open>fit\<close> and of \<^verbatim>\<open>test\<close>, the \<^verbatim>\<open>episode_reward\<close> of the log
  passed to \<^verbatim>\<open>on_episode_end\<close> is the sum (from \<open>0\<close>, in order) of the rewards of the
  recorded steps since the \<^verbatim>\<open>on_episode_begin\<close> of that episode, the reward of a step
  being the sum (from \<open>0\<close>, in order) of the rewards returned by the calls of
  \<^verbatim>\<open>env.step\<close> that follow its \<^verbatim>\<open>forward\<close>. Nothing before that \<^verbatim>\<open>on_episode_begin\<close>
  (other episodes) and no step of a random start (which follows no \<^verbatim>\<open>forward\<close>) enters
  the sum.
\<close>

theorem episode_reward_is_sum:
  fixes I :: "('e, 'g, 's, 'o, 'a, 'r::{plus,zero}, 'm) impl"
  shows "episode_rewards_ok
           (fst (fit fuel I nb_episodes nb_steps action_repetition callbacks verbose visualize
                   validation_size nb_max_random_start_steps log_interval w))
       \<and> episode_rewards_ok
           (fst (test fuel' I test_nb_episodes test_action_repetition test_callbacks
                   test_visualize w))"
  using fit_rewards_tracked test_rewards_tracked by (blast intro: rewards_tracked_ok)

theorem episode_reward_is_sum_witness:
  "fst (fit 9 example_impl (Some 1) None 1 None 0 False 1000 0 10000 example_world)
     = [New_CallbackList [], Set_model,
          Set_params [(''nb_episodes'', PyIntOrNone (Some 1)), (''nb_steps'', PyIntOrNone None),
                      (''env'', PyEnv)],
          On_train_begin]
       @ On_episode_begin 0
       # [Reset_states, Env_reset (Some 2),
            On_step_begin 0, Forward (Some 2) 7, Env_step 7 (Some 1) 1 False, Backward 1 False 0,
            On_step_end 0 (Some [(''action'', PyAction 7), (''observation'', PyObservation (Some 1)),
                                 (''reward'', PyFloat 1), (''metrics'', PyMetrics 0),
                                 (''episode'', PyInt 0)]),
            On_step_begin 1, Forward (Some 1) 7, Env_step 7 (Some 0) 1 True, Backward 1 True 0,
            On_step_end 1 (Some [(''action'', PyAction 7), (''observation'', PyObservation (Some 0)),
                                 (''reward'', PyFloat 1), (''metrics'', PyMetrics 0),
                                 (''episode'', PyInt 0)])]
       @ On_episode_end 0 [(''episode_reward'', PyFloat 2), (''nb_episode_steps'', PyInt 2), (''nb_steps'', PyInt 2)]
       # [On_train_end]
   \<and> episode_begins ([Reset_states, Env_reset (Some 2),
            On_step_begin 0, Forward (Some 2) 7, Env_step 7 (Some 1) 1 False, Backward 1 False 0,
            On_step_end 0 (Some [(''action'', PyAction 7), (''observation'', PyObservation (Some 1)),
                                 (''reward'', PyFloat 1), (''metrics'', PyMetrics 0),
                                 (''episode'', PyInt 0)]),
            On_step_begin 1, Forward (Some 1) 7, Env_step 7 (Some 0) 1 True, Backward 1 True 0,
            On_step_end 1 (Some [(''action'', PyAction 7), (''observation'', PyObservation (Some 0)),
                                 (''reward'', PyFloat 1), (''metrics'', PyMetrics 0),
                                 (''episode'', PyInt 0)])] :: (nat, nat, int, nat) event list) = []
   \<and> map_of ([(''episode_reward'', PyFloat 2), (''nb_episode_steps'', PyInt 2), (''nb_steps'', PyInt 2)] :: (nat, nat, int, nat) pydict) ''episode_reward''
       = Some (PyFloat (foldl (+) 0 (per_step_rewards ([Reset_states, Env_reset (Some 2),
            On_step_begin 0, Forward (Some 2) 7, Env_step 7 (Some 1) 1 False, Backward 1 False 0,
            On_step_end 0 (Some [(''action'', PyAction 7), (''observation'', PyObservation (Some 1)),
                                 (''reward'', PyFloat 1), (''metrics'', PyMetrics 0),
                                 (''episode'', PyInt 0)]),
            On_step_begin 1, Forward (Some 1) 7, Env_step 7 (Some 0) 1 True, Backward 1 True 0,
            On_step_end 1 (Some [(''action'', PyAction 7), (''observation'', PyObservation (Some 0)),
                                 (''reward'', PyFloat 1), (''metrics'', PyMetrics 0),
                                 (''episode'', PyInt 0)])] :: (nat, nat, int, nat) event list))))
   \<and> foldl (+) 0 (per_step_rewards ([Reset_states, Env_reset (Some 2),
            On_step_begin 0, Forward (Some 2) 7, Env_step 7 (Some 1) 1 False, Backward 1 False 0,
            On_step_end 0 (Some [(''action'', PyAction 7), (''observation'', PyObservation (Some 1)),
                                 (''reward'', PyFloat 1), (''metrics'', PyMetrics 0),
                                 (''episode'', PyInt 0)]),
            On_step_begin 1, Forward (Some 1) 7, Env_step 7 (Some 0) 1 True, Backward 1 True 0,
            On_step_end 1 (Some [(''action'', PyAction 7), (''observation'', PyObservation (Some 0)),
                                 (''reward'', PyFloat 1), (''metrics'', PyMetrics 0),
                                 (''episode'', PyInt 0)])] :: (nat, nat, int, nat) event list)) = (2::int)"
proof -
  let ?pre = "[New_CallbackList [], Set_model,
          Set_params [(''nb_episodes'', PyIntOrNone (Some 1)), (''nb_steps'', PyIntOrNone None),
                      (''env'', PyEnv)],
          On_train_begin] :: (nat, nat, int, nat) event list"
  let ?seg = "[Reset_states, Env_reset (Some 2),
            On_step_begin 0, Forward (Some 2) 7, Env_step 7 (Some 1) 1 False, Backward 1 False 0,
            On_step_end 0 (Some [(''action'', PyAction 7), (''observation'', PyObservation (Some 1)),
                                 (''reward'', PyFloat 1), (''metrics'', PyMetrics 0),
                                 (''episode'', PyInt 0)]),
            On_step_begin 1, Forward (Some 1) 7, Env_step 7 (Some 0) 1 True, Backward 1 True 0,
            On_step_end 1 (Some [(''action'', PyAction 7), (''observation'', PyObservation (Some 0)),
                                 (''reward'', PyFloat 1), (''metrics'', PyMetrics 0),
                                 (''episode'', PyInt 0)])] :: (nat, nat, int, nat) event list"
  let ?logs = "[(''episode_reward'', PyFloat 2), (''nb_episode_steps'', PyInt 2), (''nb_steps'', PyInt 2)] :: (nat, nat, int, nat) pydict"
  have t: "fst (fit 9 example_impl (Some 1) None 1 None 0 False 1000 0 10000 example_world)
             = ?pre @ On_episode_begin 0 # ?seg @ On_episode_end 0 ?logs # [On_train_end]"
    by code_simp
  have b: "episode_begins ?seg = []"
    by code_simp
  have v: "foldl (+) 0 (per_step_rewards ?seg) = (2::int)"
    by code_simp
  from episode_reward_is_sum [where I = example_impl and w = example_world and fuel = 9
      and fuel' = 9 and nb_episodes = "Some 1" and nb_steps = None and action_repetition = 1
      and callbacks = None and verbose = 0 and visualize = False and validation_size = 1000
      and nb_max_random_start_steps = 0 and log_interval = 10000 and test_nb_episodes = 1
      and test_action_repetition = 1 and test_callbacks = None and test_visualize = False]
  have "episode_rewards_ok
          (fst (fit 9 example_impl (Some 1) None 1 None 0 False 1000 0 10000 example_world))"
    by (rule conjunct1)
  with t b have "map_of ?logs ''episode_reward''
                   = Some (PyFloat (foldl (+) 0 (per_step_rewards ?seg)))"
    unfolding episode_rewards_ok_def by blast
  with t b v show ?thesis
    by (intro conjI) assumption+
qed

section \<open>Random starts\<close>

lemma starts_upto_ok:
  "starts_upto v b tr \<Longrightarrow> episode_starts_ok v tr"
  unfolding starts_upto_def episode_starts_ok_def by blast

lemma no_begin_split:
  "episode_begins tr = [] \<Longrightarrow> tr \<noteq> pre @ On_episode_begin e # rest"
  by auto

lemma starts_upto_plain:
  "episode_begins tr = [] \<Longrightarrow> starts_upto v b tr"
  unfolding starts_upto_def using no_begin_split by blast

lemma starts_upto_append:
  assumes "starts_upto v True xs" and "starts_upto v b ys"
  shows "starts_upto v b (xs @ ys)"
  unfolding starts_upto_def
proof (intro allI impI)
  fix pre e rest
  assume "xs @ ys = pre @ On_episode_begin e # rest"
  then consider us where "xs = pre @ On_episode_begin e # us" "rest = us @ ys"
    | us where "pre = xs @ us" "ys = us @ On_episode_begin e # rest"
    by (auto simp: append_eq_append_conv2 append_eq_Cons_conv)
  then show "\<exists>warm rest'. rest = warm @ rest' \<and> warm_up_ok v warm
           \<and> ((\<not> b \<and> rest' = [])
                \<or> (\<exists>ob a rest''. rest' = On_step_begin 0 # Forward ob a # rest''))"
  proof cases
    case 1
    from assms(1) 1(1) obtain warm ob a rest''
      where "us = warm @ On_step_begin 0 # Forward ob a # rest''" and "warm_up_ok v warm"
      unfolding starts_upto_def by blast
    with 1(2) show ?thesis
      by (intro exI[of _ warm] exI[of _ "On_step_begin 0 # Forward ob a # rest'' @ ys"]) simp
  next
    case 2
    with assms(2) show ?thesis unfolding starts_upto_def by blast
  qed
qed

lemma env_step_count_simps [simp]:
  "env_step_count [] = 0"
  "env_step_count (xs @ ys) = env_step_count xs + env_step_count ys"
  "env_step_count (Env_step a ob r d # xs) = Suc (env_step_count xs)"
  "\<not> is_env_step ev \<Longrightarrow> env_step_count (ev # xs) = env_step_count xs"
  by (simp_all add: env_step_count_def)

lemma random_starts_count:
  "env_step_count (fst (random_starts I n tot st)) \<le> n"
proof (induction n arbitrary: st)
  case 0
  show ?case by simp
next
  case (Suc n)
  obtain ob e s where st: "st = (ob, e, s)" by (cases st) auto
  obtain a s' where sa: "space_sample I s = (a, s')" by (cases "space_sample I s")
  obtain ob' r d e' where es: "env_step I a e = ((ob', r, d), e')"
    by (cases "env_step I a e") auto
  show ?case using Suc[of "(ob', e', s')"]
    by (auto simp: st sa es split: prod.splits)
qed

lemma start_episode_warm:
  assumes "start_episode I v fr = (evs, out)" and "0 < v \<longrightarrow> randint_in_range I v"
  shows "\<exists>warm. evs = On_episode_begin (episode fr) # warm \<and> warm_up_ok v warm"
proof -
  obtain ob e where er: "env_reset I (env (world fr)) = (ob, e)"
    by (cases "env_reset I (env (world fr))")
  let ?w1 = "(world fr)\<lparr>env := e, agent := reset_states I (agent (world fr))\<rparr>"
  obtain evs1 res where nb: "nb_random_start_steps I v (rnd ?w1) = (evs1, res)"
    by (cases "nb_random_start_steps I v (rnd ?w1)")
  then have i1: "list_all start_event evs1" "env_step_count evs1 = 0"
    by (auto simp: nb_random_start_steps_def split: if_splits prod.splits)
  show ?thesis
  proof (cases "ob \<noteq> None \<and> (\<exists>ns. res = Inr ns)")
    case False
    with assms(1) er nb have "evs = [On_episode_begin (episode fr), Reset_states, Env_reset ob]
                \<or> evs = On_episode_begin (episode fr) # Reset_states # Env_reset ob # evs1"
      by (cases res) (auto simp: start_episode_def Let_def split: if_splits)
    with i1 show ?thesis by (auto simp: warm_up_ok_def)
  next
    case True
    then obtain y n s where ob: "ob = Some y" and res: "res = Inr (n, s)" by auto
    obtain evs2 st' where rs: "random_starts I (nat n) n (ob, e, s) = (evs2, st')"
      by (cases "random_starts I (nat n) n (ob, e, s)")
    from random_starts_start_events[of I "nat n" n "(ob, e, s)"]
         random_starts_count[of I "nat n" n "(ob, e, s)"] rs
    have i2: "list_all start_event evs2" "env_step_count evs2 \<le> nat n" by simp_all
    from nb res assms(2) have r: "v = 0 \<longrightarrow> n = 0" "0 < v \<longrightarrow> n < v"
      by (auto simp: nb_random_start_steps_def randint_in_range_def split: if_splits prod.splits
               dest: spec[of _ "rnd ?w1"])
    from assms(1) er nb res ob rs
    have e: "evs = On_episode_begin (episode fr) # Reset_states # Env_reset ob # evs1 @ evs2"
      by (cases st') (auto simp: start_episode_def Let_def)
    from i1 i2 r have "warm_up_ok v (Reset_states # Env_reset ob # evs1 @ evs2)"
      by (auto simp: warm_up_ok_def)
    with e show ?thesis by blast
  qed
qed

lemma fit_body_starts:
  fixes I :: "('e, 'g, 's, 'o, 'a, 'r::{plus,zero}, 'm) impl"
  assumes "1 \<le> k" and "fit_body I k v fr = (evs, out)" and "0 < v \<longrightarrow> randint_in_range I v"
  shows "starts_upto v (\<exists>fr1. out = Inr fr1) evs"
proof (cases "observation fr = None")
  case False
  from assms(2) have f: "fit_step I k fr = (evs, out)"
    unfolding fit_body_running[OF False] .
  from fit_step_shape[OF assms(1) f] have "episode_begins evs = []"
    by (auto simp: step_events_plain)
  then show ?thesis by (rule starts_upto_plain)
next
  case True
  obtain evs0 out0 where s: "start_episode I v fr = (evs0, out0)"
    by (cases "start_episode I v fr")
  from start_episode_warm[OF s assms(3)] obtain warm
    where e0: "evs0 = On_episode_begin (episode fr) # warm" and w: "warm_up_ok v warm"
    by blast
  then have nbw: "episode_begins warm = []"
    using start_events_plain(1)[of warm] by (simp add: warm_up_ok_def)
  have one: "starts_upto v b (On_episode_begin (episode fr) # warm @ rest')"
    if "episode_begins rest' = []"
      and "(\<not> b \<and> rest' = []) \<or> (\<exists>ob a rest''. rest' = On_step_begin 0 # Forward ob a # rest'')"
    for b rest'
    unfolding starts_upto_def
  proof (intro allI impI)
    fix pre e rest
    assume d: "On_episode_begin (episode fr) # warm @ rest' = pre @ On_episode_begin e # rest"
    have "pre = []"
    proof (cases pre)
      case Nil
      then show ?thesis .
    next
      case (Cons p pre')
      with d have "warm @ rest' = pre' @ On_episode_begin e # rest" by simp
      moreover from nbw that(1) have "episode_begins (warm @ rest') = []" by simp
      ultimately have False using no_begin_split by blast
      then show ?thesis ..
    qed
    with d have "rest = warm @ rest'" by simp
    with w that(2)
    show "\<exists>warm rest'. rest = warm @ rest' \<and> warm_up_ok v warm
           \<and> ((\<not> b \<and> rest' = [])
                \<or> (\<exists>ob a rest''. rest' = On_step_begin 0 # Forward ob a # rest''))"
      by blast
  qed
  show ?thesis
  proof (cases out0)
    case (Inl err)
    with True s assms(2) have "evs = evs0" "out = Inl err" by (auto simp: fit_body_def)
    with one[of "[]" False] e0 show ?thesis by simp
  next
    case (Inr fr0)
    from start_episode_frame[OF s[unfolded Inr]] have es0: "episode_step fr0 = Some 0" by simp
    obtain evs1 out1 where t: "fit_step I k fr0 = (evs1, out1)" by (cases "fit_step I k fr0")
    with True s Inr assms(2) have e: "evs = evs0 @ evs1" "out = out1" by (auto simp: fit_body_def)
    from fit_step_shape[OF assms(1) t] es0
    have "(evs1 = [] \<and> (\<exists>err. out1 = Inl err))
            \<or> ((\<exists>fr1. out1 = Inr fr1) \<and> (\<exists>ob a rest''. evs1 = On_step_begin 0 # Forward ob a # rest''))"
      by auto
    moreover from fit_step_shape[OF assms(1) t] have "episode_begins evs1 = []"
      by (auto simp: step_events_plain)
    ultimately show ?thesis
      using one[of evs1 "\<exists>fr1. out = Inr fr1"] e e0 by auto
  qed
qed

lemma fit_loop_starts:
  fixes I :: "('e, 'g, 's, 'o, 'a, 'r::{plus,zero}, 'm) impl"
  assumes "1 \<le> k" and "0 < v \<longrightarrow> randint_in_range I v"
  shows "starts_upto v (\<forall>err. snd (fit_loop fuel I nbe nbs k v fr) \<noteq> Some (Inl err))
           (fst (fit_loop fuel I nbe nbs k v fr))"
proof (induction fuel arbitrary: fr)
  case 0
  show ?case by (simp add: starts_upto_plain)
next
  case (Suc fuel)
  show ?case
  proof (cases "fit_cond nbe nbs fr")
    case False
    then show ?thesis by (simp add: starts_upto_plain)
  next
    case True
    obtain evs1 out1 where b: "fit_body I k v fr = (evs1, out1)"
      by (cases "fit_body I k v fr")
    note s1 = fit_body_starts[OF assms(1) b assms(2)]
    show ?thesis
    proof (cases out1)
      case (Inl err)
      with True b s1 show ?thesis by simp
    next
      case (Inr fr1)
      with True b have e: "fit_loop (Suc fuel) I nbe nbs k v fr
                          = (evs1 @ fst (fit_loop fuel I nbe nbs k v fr1),
                             snd (fit_loop fuel I nbe nbs k v fr1))"
        by (simp split: prod.splits)
      from s1 Inr have "starts_upto v True evs1" by simp
      from starts_upto_append[OF this Suc.IH[of fr1]] e show ?thesis by simp
    qed
  qed
qed

lemma fit_starts_ok:
  fixes I :: "('e, 'g, 's, 'o, 'a, 'r::{plus,zero}, 'm) impl"
  assumes "0 < v \<longrightarrow> randint_in_range I v"
  shows "episode_starts_ok v (fst (fit fuel I nbe nbs k cbs verbose vis vs v li w))"
proof (cases "compiled (agent w) \<and> 1 \<le> k")
  case False
  then have "fst (fit fuel I nbe nbs k cbs verbose vis vs v li w) = []"
    by (auto simp: fit_def)
  then show ?thesis by (simp add: episode_starts_ok_def)
next
  case True
  then have c: "compiled (agent w)" and k: "1 \<le> k" by simp_all
  let ?h = "fit_setup nbe nbs cbs verbose vis li w @ [On_train_begin :: ('o, 'a, 'r, 'm) event]"
  let ?fr0 = "fit_frame0 (fit_prologue nbe nbs cbs verbose vis li w) :: ('e, 'g, 's, 'o, 'r) frame"
  obtain evs out where l: "fit_loop fuel I nbe nbs k v ?fr0 = (evs, out)"
    by (cases "fit_loop fuel I nbe nbs k v ?fr0")
  from fit_loop_starts[OF k assms, where fuel = fuel and nbe = nbe and nbs = nbs and fr = ?fr0] l
  have s: "starts_upto v (\<forall>err. out \<noteq> Some (Inl err)) evs" by simp
  have h: "starts_upto v True ?h"
    by (rule starts_upto_plain) (simp add: fit_setup_def)
  show ?thesis
  proof (cases "\<exists>fr. out = Some (Inr fr)")
    case True
    then obtain fr where o: "out = Some (Inr fr)" by blast
    with l have t: "fst (fit fuel I nbe nbs k cbs verbose vis vs v li w)
                      = ?h @ evs @ [On_train_end]"
      by (simp add: fit_unfold[OF c k])
    from s o have "starts_upto v True evs" by simp
    from starts_upto_append[OF h starts_upto_append[OF this starts_upto_plain[of "[On_train_end]" v False]]]
    show ?thesis unfolding t by (auto intro: starts_upto_ok)
  next
    case False
    with l have t: "fst (fit fuel I nbe nbs k cbs verbose vis vs v li w) = ?h @ evs"
      by (auto simp: fit_unfold[OF c k] split: option.splits sum.splits)
    from starts_upto_append[OF h s] show ?thesis unfolding t by (rule starts_upto_ok)
  qed
qed

lemma steps_counted_no_end:
  assumes "steps_counted hist" and "episode_ends evs = []"
  shows "steps_counted (hist @ evs)"
  unfolding steps_counted_def
proof (intro allI impI)
  fix p e logs rest
  assume d: "hist @ evs = p @ On_episode_end e logs # rest"
  from d consider us where "hist = p @ On_episode_end e logs # us"
    | us where "p = hist @ us" "evs = us @ On_episode_end e logs # rest"
    by (auto simp: append_eq_append_conv2 append_eq_Cons_conv)
  then show "map_of logs ''nb_steps'' = Some (PyInt (int (length (filter is_step_begin p))))"
  proof cases
    case 1
    with assms(1) show ?thesis unfolding steps_counted_def by blast
  next
    case 2
    with assms(2) have False by simp
    then show ?thesis ..
  qed
qed

lemma steps_counted_end:
  assumes "steps_counted hist"
    and "map_of logs ''nb_steps'' = Some (PyInt (int (length (filter is_step_begin hist))))"
  shows "steps_counted (hist @ [On_episode_end e logs])"
  unfolding steps_counted_def
proof (intro allI impI)
  fix p e' logs' rest
  assume d: "hist @ [On_episode_end e logs] = p @ On_episode_end e' logs' # rest"
  from d consider us where "hist = p @ On_episode_end e' logs' # us"
    | "p = hist" "logs' = logs"
    by (auto simp: append_eq_append_conv2 append_eq_Cons_conv Cons_eq_append_conv)
  then show "map_of logs' ''nb_steps'' = Some (PyInt (int (length (filter is_step_begin p))))"
  proof cases
    case 1
    with assms(1) show ?thesis unfolding steps_counted_def by blast
  next
    case 2
    with assms(2) show ?thesis by simp
  qed
qed

lemma start_events_no_step_begin:
  "list_all start_event evs \<Longrightarrow> filter is_step_begin evs = []"
  by (induction evs) (auto elim: start_event.elims)

lemma step_events_no_step_begin:
  "filter is_step_begin (map (step_event a) rs) = []"
  by (induction rs) auto

lemma fit_step_counted:
  fixes I :: "('e, 'g, 's, 'o, 'a, 'r::{plus,zero}, 'm) impl"
  assumes "1 \<le> k" and "fit_step I k fr = (evs, out)"
    and "steps_counted hist" and "step fr = int (length (filter is_step_begin hist))"
  shows "steps_counted (hist @ evs)
       \<and> (\<forall>fr1. out = Inr fr1 \<longrightarrow> step fr1 = int (length (filter is_step_begin (hist @ evs))))"
proof -
  from fit_step_shape[OF assms(1,2)]
  consider "evs = []" "\<exists>err. out = Inl err"
    | er es ob0 a rs m slogs fr1
    where "out = Inr fr1"
      and "evs = (On_step_begin es # Forward (Some ob0) a # map (step_event a) rs
                       @ [Backward (foldl (+) 0 (map step_reward rs)) (step_done (last rs)) m,
                          On_step_end es slogs])
                     @ (if step_done (last rs)
                        then [On_episode_end (episode fr)
                                [(''episode_reward'', PyFloat (er + foldl (+) 0 (map step_reward rs))),
                                 (''nb_episode_steps'', PyInt (es + 1)),
                                 (''nb_steps'', PyInt (step fr + 1))]]
                        else [])"
      and "step fr1 = step fr + 1"
    by blast
  then show ?thesis
  proof cases
    case 1
    with assms(3) show ?thesis by auto
  next
    case 2
    let ?blk = "On_step_begin es # Forward (Some ob0) a # map (step_event a) rs
                  @ [Backward (foldl (+) 0 (map step_reward rs)) (step_done (last rs)) m,
                     On_step_end es slogs]"
    have ne: "episode_ends ?blk = []" by (simp add: step_events_plain)
    have c: "int (length (filter is_step_begin (hist @ ?blk))) = step fr + 1"
      by (simp add: assms(4) step_events_no_step_begin)
    from steps_counted_no_end[OF assms(3) ne] have t1: "steps_counted (hist @ ?blk)" .
    show ?thesis
    proof (cases "step_done (last rs)")
      case True
      let ?logs = "[(''episode_reward'', PyFloat (er + foldl (+) 0 (map step_reward rs))),
                    (''nb_episode_steps'', PyInt (es + 1)),
                    (''nb_steps'', PyInt (step fr + 1))] :: ('o, 'a, 'r, 'm) pydict"
      have "map_of ?logs ''nb_steps''
              = Some (PyInt (int (length (filter is_step_begin (hist @ ?blk)))))"
        by (simp only: c) simp
      from steps_counted_end[OF t1 this, of "episode fr"] True 2 c show ?thesis
        by (simp add: step_events_no_step_begin)
    next
      case False
      with 2 t1 c show ?thesis by simp
    qed
  qed
qed

lemma fit_body_counted:
  fixes I :: "('e, 'g, 's, 'o, 'a, 'r::{plus,zero}, 'm) impl"
  assumes "1 \<le> k" and "fit_body I k v fr = (evs, out)"
    and "steps_counted hist" and "step fr = int (length (filter is_step_begin hist))"
  shows "steps_counted (hist @ evs)
       \<and> (\<forall>fr1. out = Inr fr1 \<longrightarrow> step fr1 = int (length (filter is_step_begin (hist @ evs))))"
proof (cases "observation fr = None")
  case False
  from assms(2) have "fit_step I k fr = (evs, out)"
    unfolding fit_body_running[OF False] .
  from fit_step_counted[OF assms(1) this assms(3,4)] show ?thesis .
next
  case True
  obtain evs0 out0 where s: "start_episode I v fr = (evs0, out0)"
    by (cases "start_episode I v fr")
  from start_episode_events[OF s] obtain warm
    where e0: "evs0 = On_episode_begin (episode fr) # warm" and w: "list_all start_event warm"
    by blast
  from start_events_plain[OF w] have ne: "episode_ends evs0 = []" by (simp add: e0)
  from start_events_no_step_begin[OF w] have nsb: "filter is_step_begin evs0 = []"
    by (simp add: e0)
  from steps_counted_no_end[OF assms(3) ne] have t0: "steps_counted (hist @ evs0)" .
  show ?thesis
  proof (cases out0)
    case (Inl err)
    with True s assms(2) have "evs = evs0" "out = Inl err" by (auto simp: fit_body_def)
    with t0 show ?thesis by simp
  next
    case (Inr fr0)
    from start_episode_frame[OF s[unfolded Inr]] have "step fr0 = step fr" by simp
    with assms(4) nsb have c0: "step fr0 = int (length (filter is_step_begin (hist @ evs0)))"
      by simp
    obtain evs1 out1 where t: "fit_step I k fr0 = (evs1, out1)" by (cases "fit_step I k fr0")
    with True s Inr assms(2) have e: "evs = evs0 @ evs1" "out = out1" by (auto simp: fit_body_def)
    from fit_step_counted[OF assms(1) t t0 c0] e show ?thesis by simp
  qed
qed

lemma fit_loop_counted:
  fixes I :: "('e, 'g, 's, 'o, 'a, 'r::{plus,zero}, 'm) impl"
  assumes "1 \<le> k"
  shows "steps_counted hist \<Longrightarrow> step fr = int (length (filter is_step_begin hist))
           \<Longrightarrow> steps_counted (hist @ fst (fit_loop fuel I nbe nbs k v fr))"
proof (induction fuel arbitrary: hist fr)
  case 0
  then show ?case by simp
next
  case (Suc fuel)
  show ?case
  proof (cases "fit_cond nbe nbs fr")
    case False
    with Suc.prems show ?thesis by simp
  next
    case True
    obtain evs1 out1 where b: "fit_body I k v fr = (evs1, out1)"
      by (cases "fit_body I k v fr")
    from fit_body_counted[OF assms b Suc.prems]
    have t1: "steps_counted (hist @ evs1)"
      and f1: "\<forall>fr1. out1 = Inr fr1 \<longrightarrow> step fr1 = int (length (filter is_step_begin (hist @ evs1)))"
      by simp_all
    show ?thesis
    proof (cases out1)
      case (Inl err)
      with True b t1 show ?thesis by simp
    next
      case (Inr fr1)
      with True b have "fst (fit_loop (Suc fuel) I nbe nbs k v fr)
                          = evs1 @ fst (fit_loop fuel I nbe nbs k v fr1)"
        by (simp split: prod.splits)
      with Suc.IH[OF t1, of fr1] f1 Inr show ?thesis by simp
    qed
  qed
qed

lemma fit_steps_counted:
  fixes I :: "('e, 'g, 's, 'o, 'a, 'r::{plus,zero}, 'm) impl"
  shows "steps_counted (fst (fit fuel I nbe nbs k cbs verbose vis vs v li w))"
proof (cases "compiled (agent w) \<and> 1 \<le> k")
  case False
  then show ?thesis by (auto simp: fit_def steps_counted_def)
next
  case True
  then have c: "compiled (agent w)" and k: "1 \<le> k" by simp_all
  let ?h = "fit_setup nbe nbs cbs verbose vis li w @ [On_train_begin :: ('o, 'a, 'r, 'm) event]"
  let ?fr0 = "fit_frame0 (fit_prologue nbe nbs cbs verbose vis li w) :: ('e, 'g, 's, 'o, 'r) frame"
  from fit_trace[OF c k, of fuel I nbe nbs cbs verbose vis vs v li] obtain tail
    where t: "fst (fit fuel I nbe nbs k cbs verbose vis vs v li w)
                = (?h @ fst (fit_loop fuel I nbe nbs k v ?fr0)) @ tail"
      and tl: "tail = [] \<or> tail = [On_train_end]"
    by auto
  have "steps_counted []" by (simp add: steps_counted_def)
  from steps_counted_no_end[OF this, of ?h] have h: "steps_counted ?h"
    by (simp add: fit_setup_def)
  have "step ?fr0 = int (length (filter is_step_begin ?h))"
    by (simp add: fit_frame0_def fit_setup_def)
  from fit_loop_counted[OF k h this]
  have "steps_counted (?h @ fst (fit_loop fuel I nbe nbs k v ?fr0))" .
  moreover from tl have "episode_ends tail = []" by auto
  ultimately show ?thesis
    unfolding t by (rule steps_counted_no_end)
qed

text \<open>
  C4. In every trace of \<^verbatim>\<open>fit\<close> (with \<^verbatim>\<open>np.random.randint(v)\<close> drawing from \<open>[0, v)\<close>
  when \<^verbatim>\<open>nb_max_random_start_steps = v\<close> is positive), every \<^verbatim>\<open>on_episode_begin\<close> is
  followed by events of the start of an episode only (\<^verbatim>\<open>reset_states\<close>, \<^verbatim>\<open>env.reset\<close>,
  the draw, sampled actions and their \<^verbatim>\<open>env.step\<close>, the warning), up to the
  \<^verbatim>\<open>on_step_begin(0)\<close> and \<^verbatim>\<open>forward\<close> of the first recorded step: among them there is
  no call of \<^verbatim>\<open>env.step\<close> when \<open>v = 0\<close> and fewer than \<open>v\<close> when \<open>v > 0\<close>, and none of
  \<^verbatim>\<open>on_step_begin\<close>, \<^verbatim>\<open>on_step_end\<close>, \<^verbatim>\<open>forward\<close> or \<^verbatim>\<open>backward\<close>. The
  \<^verbatim>\<open>episode_reward\<close> reported at the end of the episode is the sum over the recorded
  steps only, and the global step count reported is the number of \<^verbatim>\<open>on_step_begin\<close>
  notifications: the steps of the random start enter neither.
\<close>

theorem random_starts_not_recorded:
  fixes I :: "('e, 'g, 's, 'o, 'a, 'r::{plus,zero}, 'm) impl"
  assumes "0 < nb_max_random_start_steps \<longrightarrow> randint_in_range I nb_max_random_start_steps"
  shows "episode_starts_ok nb_max_random_start_steps
           (fst (fit fuel I nb_episodes nb_steps action_repetition callbacks verbose visualize
                   validation_size nb_max_random_start_steps log_interval w))
       \<and> episode_rewards_ok
           (fst (fit fuel I nb_episodes nb_steps action_repetition callbacks verbose visualize
                   validation_size nb_max_random_start_steps log_interval w))
       \<and> steps_counted
           (fst (fit fuel I nb_episodes nb_steps action_repetition callbacks verbose visualize
                   validation_size nb_max_random_start_steps log_interval w))"
proof (intro conjI)
  show "episode_starts_ok nb_max_random_start_steps
           (fst (fit fuel I nb_episodes nb_steps action_repetition callbacks verbose visualize
                   validation_size nb_max_random_start_steps log_interval w))"
    by (rule fit_starts_ok[OF assms])
  show "episode_rewards_ok
           (fst (fit fuel I nb_episodes nb_steps action_repetition callbacks verbose visualize
                   validation_size nb_max_random_start_steps log_interval w))"
    by (rule rewards_tracked_ok[OF fit_rewards_tracked])
  show "steps_counted
           (fst (fit fuel I nb_episodes nb_steps action_repetition callbacks verbose visualize
                   validation_size nb_max_random_start_steps log_interval w))"
    by (rule fit_steps_counted)
qed

theorem random_starts_not_recorded_witness:
  "(0::int) < 3 \<and> randint_in_range example_impl 3
   \<and> episode_starts_ok 3
       (fst (fit 9 example_impl (Some 1) None 1 None 0 False 1000 3 10000
               (example_world\<lparr>rnd := 2\<rparr>)))
   \<and> episode_rewards_ok
       (fst (fit 9 example_impl (Some 1) None 1 None 0 False 1000 3 10000
               (example_world\<lparr>rnd := 2\<rparr>)))
   \<and> steps_counted
       (fst (fit 9 example_impl (Some 1) None 1 None 0 False 1000 3 10000
               (example_world\<lparr>rnd := 2\<rparr>)))
   \<and> fst (fit 9 example_impl (Some 1) None 1 None 0 False 1000 3 10000
            (example_world\<lparr>rnd := 2\<rparr>))
       = [New_CallbackList [], Set_model,
          Set_params [(''nb_episodes'', PyIntOrNone (Some 1)), (''nb_steps'', PyIntOrNone None),
                      (''env'', PyEnv)],
          On_train_begin]
         @ On_episode_begin 0
         # [Reset_states, Env_reset (Some 2), Randint 3 2,
            Env_sample 3, Env_step 3 (Some 1) 1 False,
            Env_sample 4, Env_step 4 (Some 0) 1 True, Warn 2, Env_reset (Some 2)]
         @ On_step_begin 0 # Forward (Some 2) 7
         # [Env_step 7 (Some 1) 1 False, Backward 1 False 0,
            On_step_end 0 (Some [(''action'', PyAction 7), (''observation'', PyObservation (Some 1)),
                                 (''reward'', PyFloat 1), (''metrics'', PyMetrics 0),
                                 (''episode'', PyInt 0)]),
            On_step_begin 1, Forward (Some 1) 7, Env_step 7 (Some 0) 1 True, Backward 1 True 0,
            On_step_end 1 (Some [(''action'', PyAction 7), (''observation'', PyObservation (Some 0)),
                                 (''reward'', PyFloat 1), (''metrics'', PyMetrics 0),
                                 (''episode'', PyInt 0)]),
            On_episode_end 0 [(''episode_reward'', PyFloat 2), (''nb_episode_steps'', PyInt 2), (''nb_steps'', PyInt 2)],
            On_train_end]
   \<and> env_step_count ([Reset_states, Env_reset (Some 2), Randint 3 2,
            Env_sample 3, Env_step 3 (Some 1) 1 False,
            Env_sample 4, Env_step 4 (Some 0) 1 True, Warn 2, Env_reset (Some 2)] :: (nat, nat, int, nat) event list) = 2"
proof -
  have r: "randint_in_range example_impl 3"
    by (simp add: randint_in_range_def example_impl_def)
  have t: "fst (fit 9 example_impl (Some 1) None 1 None 0 False 1000 3 10000
                 (example_world\<lparr>rnd := 2\<rparr>))
       = [New_CallbackList [], Set_model,
          Set_params [(''nb_episodes'', PyIntOrNone (Some 1)), (''nb_steps'', PyIntOrNone None),
                      (''env'', PyEnv)],
          On_train_begin]
         @ On_episode_begin 0
         # [Reset_states, Env_reset (Some 2), Randint 3 2,
            Env_sample 3, Env_step 3 (Some 1) 1 False,
            Env_sample 4, Env_step 4 (Some 0) 1 True, Warn 2, Env_reset (Some 2)]
         @ On_step_begin 0 # Forward (Some 2) 7
         # [Env_step 7 (Some 1) 1 False, Backward 1 False 0,
            On_step_end 0 (Some [(''action'', PyAction 7), (''observation'', PyObservation (Some 1)),
                                 (''reward'', PyFloat 1), (''metrics'', PyMetrics 0),
                                 (''episode'', PyInt 0)]),
            On_step_begin 1, Forward (Some 1) 7, Env_step 7 (Some 0) 1 True, Backward 1 True 0,
            On_step_end 1 (Some [(''action'', PyAction 7), (''observation'', PyObservation (Some 0)),
                                 (''reward'', PyFloat 1), (''metrics'', PyMetrics 0),
                                 (''episode'', PyInt 0)]),
            On_episode_end 0 [(''episode_reward'', PyFloat 2), (''nb_episode_steps'', PyInt 2), (''nb_steps'', PyInt 2)],
            On_train_end]"
    by code_simp
  have c: "env_step_count ([Reset_states, Env_reset (Some 2), Randint 3 2,
            Env_sample 3, Env_step 3 (Some 1) 1 False,
            Env_sample 4, Env_step 4 (Some 0) 1 True, Warn 2, Env_reset (Some 2)] :: (nat, nat, int, nat) event list) = 2"
    by code_simp
  from r have "0 < (3::int) \<longrightarrow> randint_in_range example_impl 3"
    by simp
  from random_starts_not_recorded [OF this, where w = "example_world\<lparr>rnd := 2\<rparr>" and fuel = 9
      and nb_episodes = "Some 1" and nb_steps = None and action_repetition = 1
      and callbacks = None and verbose = 0 and visualize = False and validation_size = 1000
      and log_interval = 10000]
  show ?thesis
    using r t c by (intro conjI) simp_all
qed

end
